theory Spec2Isabelle
  imports Complex_Main "HOL-Library.Log_Nat"
begin

section \<open>Single-precision arithmetic of the simulator\<close>

text \<open>
  The simulator computes percentages, growth and inflation in C++ \<^verbatim>\<open>float\<close>.
  A \<^verbatim>\<open>float\<close> is modelled as an IEEE 754 binary32 datum: a finite rational on the
  binary32 grid, an infinity, or a NaN. Every operation is the exact rational operation
  followed by rounding to nearest, ties to even. The sign of a zero is not kept: the
  program never divides by a computed zero that could be negative, and comparisons and
  conversions to integers do not see it.
\<close>

datatype float32 = Fin rat | PInf | NInf | NaN

text \<open>
  The binade of a fraction \<open>a / b\<close> of positive integers: the \<open>k\<close> with
  \<open>2 powi k \<le> a / b < 2 powi (k + 1)\<close>, found from the bit lengths of \<open>a\<close> and \<open>b\<close>.
\<close>

definition binade :: "int \<Rightarrow> int \<Rightarrow> int \<Rightarrow> int" where
  "binade a b k = (if 2 powi k * rat_of_int b \<le> rat_of_int a then k else k - 1)"

definition ilog2q :: "int \<Rightarrow> int \<Rightarrow> int" where
  "ilog2q a b = binade a b (bitlen a - bitlen b)"

definition ilog2 :: "rat \<Rightarrow> int" where
  "ilog2 x = (case quotient_of \<bar>x\<bar> of (a, b) \<Rightarrow> ilog2q a b)"

text \<open>Round to the nearest integer, ties to even; \<open>f\<close> is the floor of \<open>r\<close>.\<close>

definition rne_floor :: "rat \<Rightarrow> int \<Rightarrow> int" where
  "rne_floor r f =
     (if r - of_int f < 1/2 then f
      else if 1/2 < r - of_int f then f + 1
      else if even f then f else f + 1)"

definition rne :: "rat \<Rightarrow> int" where
  "rne r = rne_floor r \<lfloor>r\<rfloor>"

text \<open>Round \<open>x\<close> to a multiple of \<open>2 powi q\<close>.\<close>

definition rne_scaled :: "rat \<Rightarrow> int \<Rightarrow> rat" where
  "rne_scaled x q = of_int (rne (x / 2 powi q)) * 2 powi q"

text \<open>
  Rounding to a binary format with \<open>p\<close> bits of precision whose smallest normal number
  is \<open>2 powi emin\<close>: the spacing of the grid at \<open>x\<close> is fixed by the binade of \<open>x\<close>, or by
  \<open>emin\<close> for subnormal numbers.
\<close>

definition rnd :: "nat \<Rightarrow> int \<Rightarrow> rat \<Rightarrow> rat" where
  "rnd p emin x = (if x = 0 then 0 else rne_scaled x (max (ilog2 x) emin - (int p - 1)))"

text \<open>A rounded magnitude of \<open>2 powi 128\<close> or more overflows to an infinity.\<close>

definition overflow32 :: "rat \<Rightarrow> float32" where
  "overflow32 y =
     (if 340282366920938463463374607431768211456 \<le> y then PInf
      else if y \<le> - 340282366920938463463374607431768211456 then NInf
      else Fin y)"

definition round32 :: "rat \<Rightarrow> float32" where
  "round32 x = overflow32 (rnd 24 (-126) x)"

text \<open>A decimal literal is a \<^verbatim>\<open>double\<close> first; initialising a \<^verbatim>\<open>float\<close> rounds it again.\<close>

definition lit :: "rat \<Rightarrow> float32" where
  "lit x = round32 (rnd 53 (-1022) x)"

fun fneg :: "float32 \<Rightarrow> float32" where
  "fneg (Fin x) = Fin (- x)"
| "fneg PInf = NInf"
| "fneg NInf = PInf"
| "fneg NaN = NaN"

fun fadd :: "float32 \<Rightarrow> float32 \<Rightarrow> float32" where
  "fadd (Fin x) (Fin y) = round32 (x + y)"
| "fadd NaN _ = NaN"
| "fadd _ NaN = NaN"
| "fadd PInf NInf = NaN"
| "fadd NInf PInf = NaN"
| "fadd PInf _ = PInf"
| "fadd _ PInf = PInf"
| "fadd NInf _ = NInf"
| "fadd _ NInf = NInf"

definition fsub :: "float32 \<Rightarrow> float32 \<Rightarrow> float32" where
  "fsub a b = fadd a (fneg b)"

fun fmul :: "float32 \<Rightarrow> float32 \<Rightarrow> float32" where
  "fmul (Fin x) (Fin y) = round32 (x * y)"
| "fmul NaN _ = NaN"
| "fmul _ NaN = NaN"
| "fmul PInf (Fin y) = (if y = 0 then NaN else if 0 < y then PInf else NInf)"
| "fmul NInf (Fin y) = (if y = 0 then NaN else if 0 < y then NInf else PInf)"
| "fmul (Fin x) PInf = (if x = 0 then NaN else if 0 < x then PInf else NInf)"
| "fmul (Fin x) NInf = (if x = 0 then NaN else if 0 < x then NInf else PInf)"
| "fmul PInf PInf = PInf"
| "fmul PInf NInf = NInf"
| "fmul NInf PInf = NInf"
| "fmul NInf NInf = PInf"

fun fdiv :: "float32 \<Rightarrow> float32 \<Rightarrow> float32" where
  "fdiv (Fin x) (Fin y) =
     (if y = 0 then (if x = 0 then NaN else if 0 < x then PInf else NInf)
      else round32 (x / y))"
| "fdiv NaN _ = NaN"
| "fdiv _ NaN = NaN"
| "fdiv (Fin x) PInf = Fin 0"
| "fdiv (Fin x) NInf = Fin 0"
| "fdiv PInf (Fin y) = (if 0 \<le> y then PInf else NInf)"
| "fdiv NInf (Fin y) = (if 0 \<le> y then NInf else PInf)"
| "fdiv PInf _ = NaN"
| "fdiv NInf _ = NaN"

fun flt :: "float32 \<Rightarrow> float32 \<Rightarrow> bool" where
  "flt (Fin x) (Fin y) = (x < y)"
| "flt NaN _ = False"
| "flt _ NaN = False"
| "flt NInf NInf = False"
| "flt NInf _ = True"
| "flt _ NInf = False"
| "flt PInf _ = False"
| "flt _ PInf = True"

fun feq :: "float32 \<Rightarrow> float32 \<Rightarrow> bool" where
  "feq NaN _ = False"
| "feq _ NaN = False"
| "feq a b = (a = b)"

definition fle :: "float32 \<Rightarrow> float32 \<Rightarrow> bool" where
  "fle a b = (flt a b \<or> feq a b)"

text \<open>Integer to \<^verbatim>\<open>float\<close>: the nearest binary32 value.\<close>

definition i2f :: "int \<Rightarrow> float32" where
  "i2f n = round32 (of_int n)"

text \<open>
  \<^verbatim>\<open>float\<close> to integer truncates toward zero. The conversion has undefined behaviour
  when the truncated value does not fit the destination type, and for infinities and
  NaN: the model returns \<open>None\<close> there. \<^verbatim>\<open>long int\<close> has 64 bits and \<^verbatim>\<open>int\<close> 32.
\<close>

definition trunc :: "rat \<Rightarrow> int" where
  "trunc x = (if 0 \<le> x then \<lfloor>x\<rfloor> else \<lceil>x\<rceil>)"

fun f2int :: "nat \<Rightarrow> float32 \<Rightarrow> int option" where
  "f2int w (Fin x) =
     (if - (2 ^ (w - 1)) \<le> trunc x \<and> trunc x < 2 ^ (w - 1) then Some (trunc x) else None)"
| "f2int w _ = None"

definition f2l :: "float32 \<Rightarrow> int option" where
  "f2l = f2int 64"

definition f2i :: "float32 \<Rightarrow> int option" where
  "f2i = f2int 32"

section \<open>Constants (constants.h)\<close>

definition MAX_YEARS :: nat where
  "MAX_YEARS = 50"

definition MAX_ACCOUNTS :: nat where
  "MAX_ACCOUNTS = 4"

definition CASH_RESERVE :: int where
  "CASH_RESERVE = 0"

definition INDIVIDUAL_INDEX :: nat where
  "INDIVIDUAL_INDEX = 0"

definition ROTH_INDEX :: nat where
  "ROTH_INDEX = 1"

definition IRA_INDEX :: nat where
  "IRA_INDEX = 2"

definition R401K_INDEX :: nat where
  "R401K_INDEX = 3"

section \<open>The Asset class (asset.h, asset.cpp)\<close>

text \<open>
  The data members of \<^verbatim>\<open>Asset\<close> with the names of the source, the trailing underscore
  of a member written as a prime. A \<^verbatim>\<open>std::array\<close> is a
  function from its index; a two-dimensional array takes the account first and the year
  second. \<^verbatim>\<open>long int\<close> and \<^verbatim>\<open>int\<close> members are mathematical integers: signed overflow
  is undefined behaviour in C++ and the model describes the executions without it, with
  one exception: the addition to the 32-bit member \<^verbatim>\<open>cashReserve_\<close> in addCashReserve,
  whose sum is reduced to the range of \<^verbatim>\<open>int\<close> as the compiled program does.
  The members \<^verbatim>\<open>yearsTillWithdrawal_\<close>, \<^verbatim>\<open>yearsTillPension_\<close> and \<^verbatim>\<open>pensionEstimate_\<close>
  are declared but never read or written by any member function, and are left out.
\<close>

record asset =
  fundLongevity' :: int
  cashReserve' :: int
  growthRate' :: "nat \<Rightarrow> nat \<Rightarrow> float32"
  name' :: "nat \<Rightarrow> string"
  yearsTillRetirement' :: int
  takehomeIncome' :: int
  contributionRoth' :: int
  contributionIra' :: int
  contributionR401k' :: int
  value' :: "nat \<Rightarrow> nat \<Rightarrow> int"
  availability' :: "nat \<Rightarrow> nat \<Rightarrow> bool"
  expense' :: "nat \<Rightarrow> int"
  distribution' :: "nat \<Rightarrow> nat \<Rightarrow> int"
  growthRateAvg' :: "nat \<Rightarrow> float32"
  inflation' :: "nat \<Rightarrow> float32"

text \<open>Assignment to one cell \<^verbatim>\<open>a[c][i] = v\<close> of a two-dimensional array.\<close>

definition upd2 :: "(nat \<Rightarrow> nat \<Rightarrow> 'a) \<Rightarrow> nat \<Rightarrow> nat \<Rightarrow> 'a \<Rightarrow> (nat \<Rightarrow> nat \<Rightarrow> 'a)" where
  "upd2 a c i v = a(c := (a c)(i := v))"

definition getFundLongevity :: "asset \<Rightarrow> int" where
  "getFundLongevity s = fundLongevity' s"

definition getCashReserve :: "asset \<Rightarrow> int" where
  "getCashReserve s = cashReserve' s"

text \<open>The value that a 32-bit \<^verbatim>\<open>int\<close> holds after an addition whose exact result is
  \<open>n\<close>: two's complement wrap-around.\<close>

definition wrap_int :: "int \<Rightarrow> int" where
  "wrap_int n = (n + 2147483648) mod 4294967296 - 2147483648"

definition addCashReserve :: "int \<Rightarrow> nat \<Rightarrow> nat \<Rightarrow> asset \<Rightarrow> bool \<times> asset" where
  "addCashReserve cash asset_num n_year s =
     (if value' s asset_num n_year > cash
      then (True, s\<lparr>cashReserve' := wrap_int (cashReserve' s + cash),
                     value' := upd2 (value' s) asset_num n_year (value' s asset_num n_year - cash)\<rparr>)
      else (False, s))"

definition clearCashReserve :: "asset \<Rightarrow> asset" where
  "clearCashReserve s = s\<lparr>cashReserve' := 0\<rparr>"

subsection \<open>One year of calculateN\<close>

text \<open>Retirement year: recurring income and contributions stop.\<close>

definition retire :: "nat \<Rightarrow> asset \<Rightarrow> asset" where
  "retire i s =
     (if int i = yearsTillRetirement' s
      then s\<lparr>takehomeIncome' := 0, contributionRoth' := 0,
             contributionIra' := 0, contributionR401k' := 0\<rparr>
      else s)"

text \<open>Use of the cash reserve after a year of negative growth, replenishment after a
  year of positive growth.\<close>

definition reserve_policy :: "nat \<Rightarrow> asset \<Rightarrow> asset" where
  "reserve_policy i s =
     (if i > 0 \<and> flt (growthRate' s INDIVIDUAL_INDEX (i - 1)) (i2f 0) \<and> cashReserve' s > 0
      then clearCashReserve (s\<lparr>expense' := (expense' s)(i := expense' s i - cashReserve' s)\<rparr>)
      else if i > 0 \<and> flt (i2f 0) (growthRate' s INDIVIDUAL_INDEX (i - 1)) \<and> cashReserve' s = 0
      then snd (addCashReserve CASH_RESERVE INDIVIDUAL_INDEX i s)
      else s)"

definition distributable_total :: "nat \<Rightarrow> asset \<Rightarrow> int" where
  "distributable_total i s =
     foldl (\<lambda>t c. if availability' s c i then t + value' s c i else t) 0 [0..<MAX_ACCOUNTS]"

definition net_expense :: "nat \<Rightarrow> asset \<Rightarrow> int" where
  "net_expense i s = max (expense' s i - takehomeIncome' s) 0"

definition contribution_individual :: "nat \<Rightarrow> asset \<Rightarrow> int" where
  "contribution_individual i s = max (takehomeIncome' s - expense' s i) 0"

text \<open>The shortfall check: \<open>None\<close> is the \<^verbatim>\<open>break\<close>.\<close>

definition shortfall :: "nat \<Rightarrow> asset \<Rightarrow> asset option" where
  "shortfall i s =
     (if net_expense i s > distributable_total i s
      then (if net_expense i s < distributable_total i s + cashReserve' s
            then Some (clearCashReserve
                   (s\<lparr>expense' := (expense' s)(i := expense' s i - cashReserve' s)\<rparr>))
            else None)
      else Some s)"

definition distribution_percentage :: "int \<Rightarrow> int \<Rightarrow> float32" where
  "distribution_percentage net dtotal = fdiv (i2f net) (i2f dtotal)"

text \<open>The product \<^verbatim>\<open>n * (1 + r)\<close> of an integer and a rate, stored back into a 64-bit
  or a 32-bit integer.\<close>

definition grow :: "int \<Rightarrow> float32 \<Rightarrow> float32" where
  "grow n r = fmul (i2f n) (fadd (i2f 1) r)"

text \<open>The body of the loop over the accounts for account \<open>c\<close>.\<close>

definition distribute_account :: "nat \<Rightarrow> float32 \<Rightarrow> nat \<Rightarrow> asset \<Rightarrow> asset option" where
  "distribute_account i pct c s =
     (case (if availability' s c i then f2l (fmul (i2f (value' s c i)) pct) else Some 0) of
        None \<Rightarrow> None
      | Some d \<Rightarrow>
          (let s1 = s\<lparr>distribution' := upd2 (distribution' s) c i d\<rparr> in
           if i + 1 < MAX_YEARS
           then (case f2l (grow (value' s1 c i - distribution' s1 c i) (growthRate' s1 c i)) of
                   None \<Rightarrow> None
                 | Some v \<Rightarrow> Some (s1\<lparr>value' := upd2 (value' s1) c (i + 1) v\<rparr>))
           else Some s1))"

definition distribute_all :: "nat \<Rightarrow> float32 \<Rightarrow> asset \<Rightarrow> asset option" where
  "distribute_all i pct s =
     foldl (\<lambda>r c. case r of None \<Rightarrow> None | Some s' \<Rightarrow> distribute_account i pct c s')
       (Some s) [0..<MAX_ACCOUNTS]"

text \<open>Contributions before retirement, then their growth by inflation.\<close>

definition contribute :: "nat \<Rightarrow> int \<Rightarrow> asset \<Rightarrow> asset option" where
  "contribute i ci s =
     (if int i < yearsTillRetirement' s \<and> i + 1 < MAX_YEARS
      then
        (let v1 = upd2 (value' s) INDIVIDUAL_INDEX (i + 1) (value' s INDIVIDUAL_INDEX (i + 1) + ci);
             v2 = upd2 v1 ROTH_INDEX (i + 1) (v1 ROTH_INDEX (i + 1) + contributionRoth' s);
             v3 = upd2 v2 IRA_INDEX (i + 1) (v2 IRA_INDEX (i + 1) + contributionIra' s);
             v4 = upd2 v3 R401K_INDEX (i + 1) (v3 R401K_INDEX (i + 1) + contributionR401k' s)
         in case f2l (grow (contributionRoth' s) (inflation' s i)) of None \<Rightarrow> None
            | Some cr \<Rightarrow>
           (case f2l (grow (contributionIra' s) (inflation' s i)) of None \<Rightarrow> None
            | Some ca \<Rightarrow>
           (case f2l (grow (contributionR401k' s) (inflation' s i)) of None \<Rightarrow> None
            | Some ck \<Rightarrow>
           (case f2l (grow (takehomeIncome' s) (inflation' s i)) of None \<Rightarrow> None
            | Some th \<Rightarrow>
                Some (s\<lparr>value' := v4, contributionRoth' := cr, contributionIra' := ca,
                         contributionR401k' := ck, takehomeIncome' := th\<rparr>)))))
      else Some s)"

definition inflate_expense :: "nat \<Rightarrow> asset \<Rightarrow> asset option" where
  "inflate_expense i s =
     (if i + 1 < MAX_YEARS
      then (case f2l (grow (expense' s i) (inflation' s i)) of None \<Rightarrow> None
            | Some e \<Rightarrow> Some (s\<lparr>expense' := (expense' s)(i + 1 := e)\<rparr>))
      else Some s)"

definition inflate_reserve :: "nat \<Rightarrow> asset \<Rightarrow> asset option" where
  "inflate_reserve i s =
     (if cashReserve' s > 0
      then (case f2i (grow (cashReserve' s) (inflation' s i)) of None \<Rightarrow> None
            | Some r \<Rightarrow> Some (s\<lparr>cashReserve' := r\<rparr>))
      else Some s)"

text \<open>
  The result of one iteration of the year loop: the loop goes on with a new state, it
  leaves through \<^verbatim>\<open>break\<close>, or a conversion from \<^verbatim>\<open>float\<close> had undefined behaviour.
\<close>

datatype year_result = Continue asset | Break asset | Undefined

definition after_shortfall :: "nat \<Rightarrow> int \<Rightarrow> int \<Rightarrow> int \<Rightarrow> asset \<Rightarrow> year_result" where
  "after_shortfall i net dtotal ci s =
     (case distribute_all i (distribution_percentage net dtotal) s of None \<Rightarrow> Undefined
      | Some s3 \<Rightarrow>
     (case contribute i ci s3 of None \<Rightarrow> Undefined
      | Some s4 \<Rightarrow>
     (case inflate_expense i s4 of None \<Rightarrow> Undefined
      | Some s5 \<Rightarrow>
     (case inflate_reserve i s5 of None \<Rightarrow> Undefined
      | Some s6 \<Rightarrow> Continue s6))))"

definition year_body :: "nat \<Rightarrow> asset \<Rightarrow> year_result" where
  "year_body i s =
     (let s1 = reserve_policy i (retire i s);
          dtotal = distributable_total i s1;
          net = net_expense i s1;
          ci = contribution_individual i s1
      in case shortfall i s1 of None \<Rightarrow> Break s1
         | Some s2 \<Rightarrow> after_shortfall i net dtotal ci s2)"

subsection \<open>calculateN\<close>

function year_loop :: "nat \<Rightarrow> asset \<Rightarrow> (nat \<times> asset) option" where
  "year_loop i s =
     (if i < MAX_YEARS
      then (case year_body i s of
              Undefined \<Rightarrow> None
            | Break s' \<Rightarrow> Some (i, s')
            | Continue s' \<Rightarrow> year_loop (i + 1) s')
      else Some (i, s))"
  by pat_completeness auto
termination
  by (relation "measure (\<lambda>(i, s). MAX_YEARS - i)") auto

definition calculateN :: "asset \<Rightarrow> asset option" where
  "calculateN s =
     (case year_loop 0 s of None \<Rightarrow> None
      | Some (i, s') \<Rightarrow> Some (s'\<lparr>fundLongevity' := int i\<rparr>))"

text \<open>The constructor: every member zero, every name empty.\<close>

definition Asset :: asset where
  "Asset = \<lparr>fundLongevity' = 0, cashReserve' = 0, growthRate' = (\<lambda>c y. i2f 0),
     name' = (\<lambda>c. []), yearsTillRetirement' = 0, takehomeIncome' = 0,
     contributionRoth' = 0, contributionIra' = 0, contributionR401k' = 0,
     value' = (\<lambda>c y. 0), availability' = (\<lambda>c y. False), expense' = (\<lambda>y. 0),
     distribution' = (\<lambda>c y. 0), growthRateAvg' = (\<lambda>c. i2f 0), inflation' = (\<lambda>y. i2f 0)\<rparr>"

subsection \<open>initializeFromUserData\<close>

text \<open>The \<^verbatim>\<open>UserData\<close> structure of userDataLoading.h; its members carry the prefix
  \<open>user_\<close> here.\<close>

record UserData =
  user_name :: "nat \<Rightarrow> string"
  user_value :: "nat \<Rightarrow> int"
  user_rate :: "nat \<Rightarrow> float32"
  user_initialExpense :: int
  user_takehomeIncome :: int
  user_contributionRoth :: int
  user_contributionIra :: int
  user_contributionR401k :: int
  user_initialInflation :: float32
  user_yearsTillRetirement :: nat

definition init_account :: "UserData \<Rightarrow> asset \<Rightarrow> nat \<Rightarrow> asset" where
  "init_account user s c =
     s\<lparr>name' := (name' s)(c := user_name user c),
       value' := upd2 (value' s) c 0 (user_value user c),
       growthRateAvg' := (growthRateAvg' s)(c := user_rate user c),
       distribution' := upd2 (distribution' s) c 0 0\<rparr>"

definition init_scalars :: "UserData \<Rightarrow> asset \<Rightarrow> asset" where
  "init_scalars user s =
     (let s1 = s\<lparr>expense' := (expense' s)(0 := user_initialExpense user),
                  takehomeIncome' := user_takehomeIncome user,
                  contributionRoth' := user_contributionRoth user,
                  contributionIra' := user_contributionIra user,
                  contributionR401k' := user_contributionR401k user,
                  yearsTillRetirement' := int (user_yearsTillRetirement user),
                  inflation' := (inflation' s)(0 := user_initialInflation user)\<rparr>;
          a1 = upd2 (availability' s1) INDIVIDUAL_INDEX 0 True;
          a2 = upd2 a1 ROTH_INDEX 0 False;
          a3 = upd2 a2 IRA_INDEX 0 False;
          a4 = upd2 a3 R401K_INDEX 0 False
      in snd (addCashReserve CASH_RESERVE INDIVIDUAL_INDEX 0
                (clearCashReserve (s1\<lparr>availability' := a4\<rparr>))))"

text \<open>The body of the inner loop over the accounts in year \<open>i \<ge> 1\<close>.\<close>

definition init_year_account :: "UserData \<Rightarrow> nat \<Rightarrow> asset \<Rightarrow> nat \<Rightarrow> asset" where
  "init_year_account user i s c =
     (let s1 = s\<lparr>value' := upd2 (value' s) c i (value' s c 0),
                  distribution' := upd2 (distribution' s) c i (distribution' s c 0),
                  availability' := upd2 (availability' s) INDIVIDUAL_INDEX i
                                     (availability' s 0 0)\<rparr>;
          a = availability' s1
      in if i < user_yearsTillRetirement user
         then s1\<lparr>availability' :=
                upd2 (upd2 (upd2 a ROTH_INDEX i (a ROTH_INDEX 0))
                        IRA_INDEX i (a IRA_INDEX 0))
                  R401K_INDEX i (a R401K_INDEX 0)\<rparr>
         else s1\<lparr>availability' :=
                upd2 (upd2 (upd2 a ROTH_INDEX i True) IRA_INDEX i True) R401K_INDEX i True\<rparr>)"

definition init_year :: "UserData \<Rightarrow> asset \<Rightarrow> nat \<Rightarrow> asset" where
  "init_year user s i =
     (let s1 = foldl (init_year_account user i) s [0..<MAX_ACCOUNTS]
      in s1\<lparr>expense' := (expense' s1)(i := expense' s1 0),
             inflation' := (inflation' s1)(i := inflation' s1 0)\<rparr>)"

definition initializeFromUserData :: "UserData \<Rightarrow> asset \<Rightarrow> asset" where
  "initializeFromUserData user s =
     (let s1 = foldl (init_account user) (s\<lparr>fundLongevity' := 0, cashReserve' := 0\<rparr>)
                 [0..<MAX_ACCOUNTS];
          s2 = init_scalars user s1
      in foldl (init_year user) s2 [1..<MAX_YEARS])"

section \<open>Recession models (modelRecession.h, modelRecession.cpp)\<close>

text \<open>The values of \<^verbatim>\<open>enum class ModelOption : int\<close>; any other integer is an
  unrecognised option.\<close>

definition CONSTANT :: int where
  "CONSTANT = 0"

definition PREDEFINED_YEAR0_LOSS :: int where
  "PREDEFINED_YEAR0_LOSS = 1"

definition RECESSION_RANDOMIZED :: int where
  "RECESSION_RANDOMIZED = 2"

definition STOCK_GROWTH_AVG :: float32 where
  "STOCK_GROWTH_AVG = lit (113 / 1000)"

definition STOCK_AVG_SPAN :: float32 where
  "STOCK_AVG_SPAN = lit (2 / 10)"

definition STOCK_AVG_SPAN_HALF :: float32 where
  "STOCK_AVG_SPAN_HALF = fdiv STOCK_AVG_SPAN (i2f 2)"

definition RECESSION_MIN :: float32 where
  "RECESSION_MIN = lit (- (45 / 100))"

definition RECESSION_MAX :: float32 where
  "RECESSION_MAX = lit (- (15 / 100))"

definition RECESSION_START_MOD :: nat where
  "RECESSION_START_MOD = 1"

definition RECESSION_INT_MIN :: nat where
  "RECESSION_INT_MIN = 8"

definition RECESSION_INT_MAX :: nat where
  "RECESSION_INT_MAX = 11"

definition RECOVERY_INT_MIN :: nat where
  "RECOVERY_INT_MIN = 1"

definition RECOVERY_INT_MAX :: nat where
  "RECOVERY_INT_MAX = 4"

definition RANDOM_NUM_MIN :: nat where
  "RANDOM_NUM_MIN = 1"

definition RANDOM_NUM_MAX :: nat where
  "RANDOM_NUM_MAX = 100"

definition RECESSION_YEAR0_LOSS_literals :: "rat list" where
  "RECESSION_YEAR0_LOSS_literals =
     [- (426 / 1000), 1187 / 10000, 213 / 1000, 213 / 1000, 906842 / 10000000,
      232684 / 1000000, 242684 / 1000000, 132684 / 1000000, 146684 / 1000000, 114684 / 1000000,
      826842 / 10000000, 110684 / 1000000, - (237 / 1000), 1185 / 10000, 1185 / 10000,
      926842 / 10000000, 176684 / 1000000, 138684 / 1000000, 200684 / 1000000, 218684 / 1000000,
      140684 / 1000000, 122684 / 1000000, 726842 / 10000000, 706842 / 10000000, 220684 / 1000000,
      190684 / 1000000, - (312 / 1000), 156 / 1000, 156 / 1000, 144684 / 1000000,
      786842 / 10000000, 150684 / 1000000, 148684 / 1000000, 136684 / 1000000, 218684 / 1000000,
      526842 / 10000000, 236684 / 1000000, - (321 / 1000), 136684 / 1000000, 1605 / 10000,
      1605 / 10000, 246684 / 1000000, 232684 / 1000000, 240684 / 1000000, 124684 / 1000000,
      926842 / 10000000, 242684 / 1000000, 236684 / 1000000, 130684 / 1000000, 216684 / 1000000]"

definition RECESSION_YEAR0_LOSS :: "nat \<Rightarrow> float32" where
  "RECESSION_YEAR0_LOSS n = lit (RECESSION_YEAR0_LOSS_literals ! n)"

definition scenarioPredefinedYear0Loss :: "(nat \<Rightarrow> float32) \<Rightarrow> (nat \<Rightarrow> float32)" where
  "scenarioPredefinedYear0Loss growth_common =
     foldl (\<lambda>g n. g(n := RECESSION_YEAR0_LOSS n)) growth_common [0..<MAX_YEARS]"

text \<open>
  The random source: \<open>draws k\<close> is the result of the \<open>k\<close>-th call of
  \<^verbatim>\<open>distribution(generator)\<close>, a number from \<^verbatim>\<open>RANDOM_NUM_MIN\<close> to \<^verbatim>\<open>RANDOM_NUM_MAX\<close>.
  The functions below take the sequence and the number of calls made so far.
\<close>

definition recession_rate :: "nat \<Rightarrow> float32" where
  "recession_rate d =
     fadd RECESSION_MIN
       (fmul (fdiv (i2f (int d)) (i2f (int RANDOM_NUM_MAX))) (fsub RECESSION_MAX RECESSION_MIN))"

definition half_rebound :: "float32 \<Rightarrow> float32" where
  "half_rebound r = fdiv (fneg r) (i2f 2)"

text \<open>The \<^verbatim>\<open>while\<close> loop placing recessions and recoveries: the year \<open>n\<close>, the curve, the
  count of recession and recovery years, the number of draws made.\<close>

function recession_loop ::
  "(nat \<Rightarrow> nat) \<Rightarrow> nat \<Rightarrow> (nat \<Rightarrow> float32) \<Rightarrow> nat \<Rightarrow> nat \<Rightarrow> (nat \<Rightarrow> float32) \<times> nat \<times> nat" where
  "recession_loop draws n g rr k =
     (if n < MAX_YEARS
      then
        (let rate = recession_rate (draws k);
             g1 = g(n := rate);
             recovery_y = RECOVERY_INT_MIN + draws (k + 1) mod (RECOVERY_INT_MAX - RECOVERY_INT_MIN)
         in if n + recovery_y \<ge> MAX_YEARS then (g1, rr + 1, k + 2)
            else
              (let n1 = n + recovery_y;
                   g2 = g1(n1 := half_rebound rate)
               in if n1 + 1 \<ge> MAX_YEARS then (g2, rr + 2, k + 2)
                  else
                    (let n2 = n1 + 1;
                         g3 = g2(n2 := half_rebound rate);
                         recession_y = RECESSION_INT_MIN
                           + draws (k + 2) mod (RECESSION_INT_MAX - RECESSION_INT_MIN)
                     in recession_loop draws (n2 + recession_y) g3 (rr + 3) (k + 3))))
      else (g, rr, k))"
  by pat_completeness auto
termination
  by (relation "measure (\<lambda>(draws, n, g, rr, k). MAX_YEARS - n)") auto

definition remaining_growth_avg :: "nat \<Rightarrow> float32" where
  "remaining_growth_avg rr =
     fdiv (fmul STOCK_GROWTH_AVG (i2f (int MAX_YEARS))) (i2f (int (MAX_YEARS - rr)))"

definition fill_year :: "(nat \<Rightarrow> nat) \<Rightarrow> float32 \<Rightarrow> (nat \<Rightarrow> float32) \<times> nat \<Rightarrow> nat \<Rightarrow> (nat \<Rightarrow> float32) \<times> nat" where
  "fill_year draws avg gk n =
     (case gk of (g, k) \<Rightarrow>
        if feq (g n) (i2f 0)
        then (g(n := fadd (fsub avg STOCK_AVG_SPAN_HALF)
                      (fmul (fdiv (i2f (int (draws k))) (i2f (int RANDOM_NUM_MAX))) STOCK_AVG_SPAN)),
              k + 1)
        else (g, k))"

definition scenarioRecessionRandomized :: "(nat \<Rightarrow> nat) \<Rightarrow> (nat \<Rightarrow> float32) \<Rightarrow> (nat \<Rightarrow> float32)" where
  "scenarioRecessionRandomized draws growth_common =
     (let g0 = foldl (\<lambda>g n. g(n := i2f 0)) growth_common [0..<MAX_YEARS];
          recession_y = draws 0 mod RECESSION_START_MOD
      in case recession_loop draws recession_y g0 0 1 of
           (g, rr, k) \<Rightarrow>
             fst (foldl (fill_year draws (remaining_growth_avg rr)) (g, k) [0..<MAX_YEARS]))"

text \<open>The last step of populateGrowthCurves for account \<open>c\<close>.\<close>

definition guessed_stock_ratio :: "float32 \<Rightarrow> float32" where
  "guessed_stock_ratio avg =
     (let r = fdiv avg STOCK_GROWTH_AVG in if fle r (Fin 1) then r else Fin 1)"

definition scale_account :: "(nat \<Rightarrow> float32) \<Rightarrow> asset \<Rightarrow> nat \<Rightarrow> asset" where
  "scale_account growth_common s c =
     foldl (\<lambda>s' n. s'\<lparr>growthRate' := upd2 (growthRate' s') c n
                          (fmul (growth_common n) (guessed_stock_ratio (growthRateAvg' s c)))\<rparr>)
       s [0..<MAX_YEARS]"

definition constant_account :: "asset \<Rightarrow> nat \<Rightarrow> asset" where
  "constant_account s c =
     foldl (\<lambda>s' n. s'\<lparr>growthRate' := upd2 (growthRate' s') c n (growthRateAvg' s' c)\<rparr>)
       s [0..<MAX_YEARS]"

text \<open>The local array \<^verbatim>\<open>growth_common\<close> after the \<^verbatim>\<open>switch\<close>: it starts as zeros and
  only the two recession scenarios fill it.\<close>

definition common_curve :: "(nat \<Rightarrow> nat) \<Rightarrow> int \<Rightarrow> (nat \<Rightarrow> float32)" where
  "common_curve draws option =
     (if option = PREDEFINED_YEAR0_LOSS then scenarioPredefinedYear0Loss (\<lambda>n. Fin 0)
      else if option = RECESSION_RANDOMIZED then scenarioRecessionRandomized draws (\<lambda>n. Fin 0)
      else (\<lambda>n. Fin 0))"

text \<open>
  populateGrowthCurves returns nothing: the model returns the object after the call
  together with the lines written to \<^verbatim>\<open>std::cerr\<close>.
\<close>

definition populateGrowthCurves :: "(nat \<Rightarrow> nat) \<Rightarrow> int \<Rightarrow> asset \<Rightarrow> asset \<times> string list" where
  "populateGrowthCurves draws option s =
     (let growth_common = common_curve draws option;
          s1 = (if option = CONSTANT then foldl constant_account s [0..<MAX_ACCOUNTS] else s);
          err = (if option = CONSTANT \<or> option = PREDEFINED_YEAR0_LOSS
                    \<or> option = RECESSION_RANDOMIZED
                 then [] else [''ERROR: Fund growth moodel option not recognized!''])
      in (if option \<noteq> CONSTANT
          then foldl (scale_account growth_common) s1 [0..<MAX_ACCOUNTS] else s1,
          err))"

section \<open>Auxiliary notions for the statements\<close>

text \<open>The components of the object that calculateN is claimed to leave alone.\<close>

definition unchanged :: "asset \<Rightarrow> asset \<Rightarrow> bool" where
  "unchanged s s' \<longleftrightarrow>
     name' s' = name' s \<and> availability' s' = availability' s \<and>
     growthRate' s' = growthRate' s \<and> growthRateAvg' s' = growthRateAvg' s \<and>
     inflation' s' = inflation' s \<and> yearsTillRetirement' s' = yearsTillRetirement' s \<and>
     (\<forall>c. value' s' c 0 = value' s c 0)"

text \<open>The amount that lines 201 to 204 of asset.cpp add to account \<open>c\<close>.\<close>

definition contribution_to :: "nat \<Rightarrow> nat \<Rightarrow> asset \<Rightarrow> int" where
  "contribution_to i c s =
     (if c = INDIVIDUAL_INDEX then contribution_individual i s
      else if c = ROTH_INDEX then contributionRoth' s
      else if c = IRA_INDEX then contributionIra' s
      else contributionR401k' s)"

text \<open>The finite values of the model that are binary32 numbers: rounding leaves them
  alone. Infinities and NaN count as representable.\<close>

definition representable :: "float32 \<Rightarrow> bool" where
  "representable a =
     (case a of Fin x \<Rightarrow> rnd 24 (- 126) x = x \<and> \<bar>x\<bar> < 340282366920938463463374607431768211456
      | _ \<Rightarrow> True)"

text \<open>What account \<open>c\<close> withdraws in year \<open>i\<close>, when the year is completed.\<close>

definition withdrawn :: "nat \<Rightarrow> nat \<Rightarrow> asset \<Rightarrow> int option" where
  "withdrawn i c s = (case year_body i s of Continue s' \<Rightarrow> Some (distribution' s' c i) | _ \<Rightarrow> None)"

text \<open>The value of account \<open>c\<close> for year \<open>i + 1\<close> that a completed year \<open>i\<close> leaves.\<close>

definition projected :: "nat \<Rightarrow> nat \<Rightarrow> asset \<Rightarrow> int option" where
  "projected i c s = (case year_body i s of Continue s' \<Rightarrow> Some (value' s' c (i + 1)) | _ \<Rightarrow> None)"

subsection \<open>The year loop without growth, inflation, income and reserve\<close>

text \<open>
  With zero growth and inflation, no income, no contributions, an empty reserve and all
  four accounts available, a year of calculateN is determined by the four current values
  and the expense. \<open>share v pct\<close> is what is left of an account after its withdrawal;
  values are kept below \<open>2 ^ 24\<close> in magnitude, where the conversions to \<^verbatim>\<open>float\<close>
  in the growth step are exact. \<open>ng_loop\<close> is the year loop on these five numbers and
  returns the year in which it ends.
\<close>

definition share :: "int \<Rightarrow> float32 \<Rightarrow> int option" where
  "share v pct =
     (case f2l (fmul (i2f v) pct) of None \<Rightarrow> None
      | Some d \<Rightarrow> if \<bar>v - d\<bar> \<le> 16777216 then Some (v - d) else None)"

function ng_loop :: "nat \<Rightarrow> int \<Rightarrow> int \<Rightarrow> int \<Rightarrow> int \<Rightarrow> int \<Rightarrow> nat option" where
  "ng_loop i e v0 v1 v2 v3 =
     (if i < MAX_YEARS
      then (if e > v0 + v1 + v2 + v3 then Some i
            else (case share v0 (distribution_percentage e (v0 + v1 + v2 + v3)) of None \<Rightarrow> None
                  | Some w0 \<Rightarrow>
                 (case share v1 (distribution_percentage e (v0 + v1 + v2 + v3)) of None \<Rightarrow> None
                  | Some w1 \<Rightarrow>
                 (case share v2 (distribution_percentage e (v0 + v1 + v2 + v3)) of None \<Rightarrow> None
                  | Some w2 \<Rightarrow>
                 (case share v3 (distribution_percentage e (v0 + v1 + v2 + v3)) of None \<Rightarrow> None
                  | Some w3 \<Rightarrow> ng_loop (i + 1) e w0 w1 w2 w3)))))
      else Some i)"
  by pat_completeness auto
termination
  by (relation "measure (\<lambda>(i, e, v0, v1, v2, v3). MAX_YEARS - i)") auto

definition ng_env :: "asset \<Rightarrow> bool" where
  "ng_env s \<longleftrightarrow>
     (\<forall>c y. c < MAX_ACCOUNTS \<and> y < MAX_YEARS \<longrightarrow> growthRate' s c y = Fin 0) \<and>
     (\<forall>y. y < MAX_YEARS \<longrightarrow> inflation' s y = Fin 0) \<and>
     takehomeIncome' s = 0 \<and> contributionRoth' s = 0 \<and> contributionIra' s = 0 \<and>
     contributionR401k' s = 0 \<and> cashReserve' s = 0 \<and>
     (\<forall>c y. c < MAX_ACCOUNTS \<and> y < MAX_YEARS \<longrightarrow> availability' s c y)"

definition ng_year :: "nat \<Rightarrow> int \<Rightarrow> int \<Rightarrow> int \<Rightarrow> int \<Rightarrow> int \<Rightarrow> asset \<Rightarrow> bool" where
  "ng_year i e v0 v1 v2 v3 s \<longleftrightarrow>
     ng_env s \<and> value' s 0 i = v0 \<and> value' s 1 i = v1 \<and> value' s 2 i = v2 \<and>
     value' s 3 i = v3 \<and> expense' s i = e \<and> 0 \<le> e \<and> e \<le> 16777216"

subsection \<open>Concrete objects\<close>

text \<open>The object of the test AddCashReserveSuccess, made ready for calculateN: one dollar
  left in the individual account, a reserve of 500 and an expense of 501.\<close>

definition boundary_state :: asset where
  "boundary_state =
     snd (addCashReserve 500 INDIVIDUAL_INDEX 0
       (Asset\<lparr>value' := upd2 (value' Asset) INDIVIDUAL_INDEX 0 501,
              availability' := upd2 (availability' Asset) INDIVIDUAL_INDEX 0 True,
              expense' := (expense' Asset)(0 := 501)\<rparr>))"

text \<open>Four accounts of 3 each, always available, and an expense of 7.\<close>

definition small_accounts :: asset where
  "small_accounts =
     Asset\<lparr>expense' := (expense' Asset)(0 := 7), value' := (\<lambda>c y. if y = 0 then 3 else 0),
           availability' := (\<lambda>c y. True)\<rparr>"

text \<open>A profile with four accounts of 12,500, an expense of 1,000 and immediate
  retirement.\<close>

definition user0 :: UserData where
  "user0 = \<lparr>user_name = (\<lambda>c. []), user_value = (\<lambda>c. 12500), user_rate = (\<lambda>c. Fin 0),
     user_initialExpense = 1000, user_takehomeIncome = 0, user_contributionRoth = 0,
     user_contributionIra = 0, user_contributionR401k = 0, user_initialInflation = Fin 0,
     user_yearsTillRetirement = 0\<rparr>"

text \<open>A random source that always returns 50.\<close>

definition fixed_draws :: "nat \<Rightarrow> nat" where
  "fixed_draws k = 50"

text \<open>Accounts with an average growth of 5 percent, and accounts with an average growth of
  minus 30 percent.\<close>

definition cautious_investor :: asset where
  "cautious_investor = Asset\<lparr>growthRateAvg' := (\<lambda>c. lit (5 / 100))\<rparr>"

definition negative_average :: asset where
  "negative_average = Asset\<lparr>growthRateAvg' := (\<lambda>c. lit (- (3 / 10)))\<rparr>"

text \<open>One available account of 16,777,219 dollars, which is not a binary32 number, and an
  expense of the same amount.\<close>

definition rounding_state :: asset where
  "rounding_state =
     Asset\<lparr>value' := upd2 (value' Asset) INDIVIDUAL_INDEX 0 16777219,
           availability' := upd2 (availability' Asset) INDIVIDUAL_INDEX 0 True,
           expense' := (expense' Asset)(0 := 16777219)\<rparr>"

text \<open>The object of the test ConstantNoGrowthModel with \<open>v\<close> dollars in each of the four
  accounts and an expense of \<open>e\<close>: the accounts are available in every year and the
  constant growth model is applied to zero averages. The test has \<open>v\<close> = 12,500 and
  \<open>e\<close> = 1,000.\<close>

definition no_growth_accounts :: "int \<Rightarrow> int \<Rightarrow> asset" where
  "no_growth_accounts v e =
     fst (populateGrowthCurves fixed_draws CONSTANT
       (Asset\<lparr>expense' := (expense' Asset)(0 := e),
              value' := (\<lambda>c y. if c < MAX_ACCOUNTS \<and> y = 0 then v else 0),
              availability' := (\<lambda>c y. c < MAX_ACCOUNTS \<and> y < MAX_YEARS)\<rparr>))"

text \<open>One year before retirement: an individual account of 1,000 and a Roth account of 200
  that is not available yet, every growth rate 10 percent, an income of 30, an expense
  of 100 and a yearly Roth contribution of 50.\<close>

definition growing_accounts :: asset where
  "growing_accounts =
     Asset\<lparr>growthRate' := (\<lambda>c y. lit (1 / 10)), yearsTillRetirement' := 1,
           takehomeIncome' := 30, contributionRoth' := 50,
           value' := upd2 (upd2 (value' Asset) INDIVIDUAL_INDEX 0 1000) ROTH_INDEX 0 200,
           availability' := upd2 (availability' Asset) INDIVIDUAL_INDEX 0 True,
           expense' := (expense' Asset)(0 := 100)\<rparr>"

text \<open>One available account of 16,777,217 dollars, which is not a binary32 number, no
  expense and no growth.\<close>

definition precise_state :: asset where
  "precise_state =
     Asset\<lparr>value' := upd2 (value' Asset) INDIVIDUAL_INDEX 0 16777217,
           availability' := upd2 (availability' Asset) INDIVIDUAL_INDEX 0 True\<rparr>"

text \<open>A reserve filled to the largest \<^verbatim>\<open>int\<close> by addCashReserve, with 3 dollars left in
  the individual account.\<close>

definition full_reserve :: asset where
  "full_reserve =
     snd (addCashReserve 2147483647 INDIVIDUAL_INDEX 0
       (Asset\<lparr>value' := upd2 (value' Asset) INDIVIDUAL_INDEX 0 2147483650\<rparr>))"

declare year_loop.simps [simp del]
declare recession_loop.simps [simp del]
declare ng_loop.simps [simp del]

section \<open>Properties of the rounding\<close>

subsection \<open>Binades\<close>

lemma pow2_pos: "(0::rat) < 2 powi k"
  by simp

lemma pow2_mono: "k \<le> l \<Longrightarrow> (2::rat) powi k \<le> 2 powi l"
  by (rule power_int_increasing) simp_all

lemma pow2_strict_mono: "k < l \<Longrightarrow> (2::rat) powi k < 2 powi l"
  by (rule power_int_strict_increasing) simp_all

lemma pow2_Suc: "(2::rat) powi (k + 1) = 2 * 2 powi k"
  by (simp add: power_int_add)

lemma pow2_less_imp: "(2::rat) powi k < 2 powi l \<Longrightarrow> k < l"
  using pow2_mono [of l k] by (cases "k < l") auto

lemma pow2_nat: "0 \<le> k \<Longrightarrow> (2::rat) powi k = of_int (2 ^ nat k)"
  by (simp add: power_int_def)

lemma bitlen_rat_bounds:
  assumes "0 < a"
  shows "(2::rat) powi (bitlen a - 1) \<le> of_int a" and "rat_of_int a < 2 powi (bitlen a)"
proof -
  from bitlen_bounds [OF assms] have l: "2 ^ nat (bitlen a - 1) \<le> a" and u: "a < 2 ^ nat (bitlen a)"
    by simp_all
  have pos: "1 \<le> bitlen a"
    using assms bitlen_eq_zero_iff [of a] bitlen_nonneg [of a] by linarith
  have "(2::rat) powi (bitlen a - 1) = of_int (2 ^ nat (bitlen a - 1))"
    using pos by (simp add: pow2_nat)
  also have "\<dots> \<le> of_int a"
    using l by (simp only: of_int_le_iff)
  finally show "(2::rat) powi (bitlen a - 1) \<le> of_int a" .
  have "rat_of_int a < of_int (2 ^ nat (bitlen a))"
    using u by (simp only: of_int_less_iff)
  also have "\<dots> = 2 powi (bitlen a)"
    using pos by (simp add: pow2_nat)
  finally show "rat_of_int a < 2 powi (bitlen a)" .
qed

lemma ilog2q_bounds:
  assumes a: "0 < a" and b: "0 < b"
  shows "2 powi (ilog2q a b) \<le> rat_of_int a / of_int b"
    and "rat_of_int a / of_int b < 2 powi (ilog2q a b + 1)"
proof -
  let ?k = "bitlen a - bitlen b"
  have bpos: "(0::rat) < of_int b" using b by simp
  have al: "(2::rat) powi (bitlen a - 1) \<le> of_int a" and au: "rat_of_int a < 2 powi (bitlen a)"
    using bitlen_rat_bounds [OF a] by simp_all
  have bl: "(2::rat) powi (bitlen b - 1) \<le> of_int b" and bu: "rat_of_int b < 2 powi (bitlen b)"
    using bitlen_rat_bounds [OF b] by simp_all
  have up: "rat_of_int a < 2 powi (?k + 1) * of_int b"
  proof -
    have "rat_of_int a < 2 powi (bitlen a)" by (rule au)
    also have "\<dots> = 2 powi (?k + 1) * 2 powi (bitlen b - 1)"
      by (simp flip: power_int_add)
    also have "\<dots> \<le> 2 powi (?k + 1) * of_int b"
      using bl by (intro mult_left_mono) simp_all
    finally show ?thesis .
  qed
  have lo: "2 powi (?k - 1) * rat_of_int b \<le> of_int a"
  proof -
    have "2 powi (?k - 1) * rat_of_int b \<le> 2 powi (?k - 1) * 2 powi (bitlen b)"
      using bu by (intro mult_left_mono) simp_all
    also have "\<dots> = 2 powi (bitlen a - 1)"
      by (simp flip: power_int_add)
    also have "\<dots> \<le> of_int a" by (rule al)
    finally show ?thesis .
  qed
  show "2 powi (ilog2q a b) \<le> rat_of_int a / of_int b"
    using lo bpos by (simp add: ilog2q_def binade_def pos_le_divide_eq)
  show "rat_of_int a / of_int b < 2 powi (ilog2q a b + 1)"
    using up bpos by (auto simp add: ilog2q_def binade_def pos_divide_less_eq not_le)
qed

lemma ilog2_bounds:
  assumes "x \<noteq> 0"
  shows "2 powi (ilog2 x) \<le> \<bar>x\<bar>" and "\<bar>x\<bar> < 2 powi (ilog2 x + 1)"
proof -
  obtain a b where q: "quotient_of \<bar>x\<bar> = (a, b)" by (cases "quotient_of \<bar>x\<bar>")
  have b: "0 < b" using quotient_of_denom_pos [OF q] .
  have x: "\<bar>x\<bar> = of_int a / of_int b" using quotient_of_div [OF q] .
  have "0 < \<bar>x\<bar>" using assms by simp
  then have a: "0 < a" using b unfolding x by (simp add: zero_less_divide_iff)
  have e: "ilog2 x = ilog2q a b" by (simp add: ilog2_def q)
  show "2 powi (ilog2 x) \<le> \<bar>x\<bar>" unfolding e x by (rule ilog2q_bounds [OF a b])
  show "\<bar>x\<bar> < 2 powi (ilog2 x + 1)" unfolding e x by (rule ilog2q_bounds [OF a b])
qed

lemma ilog2_unique:
  assumes l: "2 powi k \<le> \<bar>x\<bar>" and u: "\<bar>x\<bar> < 2 powi (k + 1)"
  shows "ilog2 x = k"
proof -
  have "0 < \<bar>x\<bar>" using pow2_pos [of k] l by (rule less_le_trans)
  then have nz: "x \<noteq> 0" by simp
  have "2 powi k < (2::rat) powi (ilog2 x + 1)"
    using l ilog2_bounds(2) [OF nz] by (rule le_less_trans)
  then have 1: "k < ilog2 x + 1" by (rule pow2_less_imp)
  have "2 powi (ilog2 x) < (2::rat) powi (k + 1)"
    using ilog2_bounds(1) [OF nz] u by (rule le_less_trans)
  then have 2: "ilog2 x < k + 1" by (rule pow2_less_imp)
  from 1 2 show ?thesis by simp
qed

lemma ilog2_minus: "ilog2 (- x) = ilog2 x"
  by (simp add: ilog2_def)

lemma ilog2_fraction:
  assumes a: "0 < a" and b: "0 < b"
  shows "ilog2 (of_int a / of_int b) = ilog2q a b"
proof (rule ilog2_unique)
  have "(0::rat) \<le> of_int a / of_int b" using a b by simp
  then have abs: "\<bar>rat_of_int a / of_int b\<bar> = of_int a / of_int b" by (rule abs_of_nonneg)
  show "2 powi ilog2q a b \<le> \<bar>rat_of_int a / rat_of_int b\<bar>"
    unfolding abs by (rule ilog2q_bounds [OF a b])
  show "\<bar>rat_of_int a / rat_of_int b\<bar> < 2 powi (ilog2q a b + 1)"
    unfolding abs by (rule ilog2q_bounds [OF a b])
qed

lemma ilog2_numeral_div: "ilog2 (numeral a / numeral b) = ilog2q (numeral a) (numeral b)"
  using ilog2_fraction [of "numeral a" "numeral b"] by simp

lemma ilog2_one_div: "ilog2 (1 / numeral b) = ilog2q 1 (numeral b)"
  using ilog2_fraction [of 1 "numeral b"] by simp

lemma ilog2_numeral: "ilog2 (numeral a) = ilog2q (numeral a) 1"
  using ilog2_fraction [of "numeral a" 1] by simp

lemma ilog2_one: "ilog2 1 = 0"
  by (rule ilog2_unique) simp_all

subsection \<open>Evaluation on numerals\<close>

lemma bitlen_numeral:
  "bitlen (numeral (Num.Bit0 n)) = bitlen (numeral n) + 1"
  "bitlen (numeral (Num.Bit1 n)) = bitlen (numeral n) + 1"
  "bitlen 1 = 1"
  "bitlen (numeral Num.One) = 1"
  by (subst compute_bitlen, simp)+

lemma pow2_numeral:
  "(2::rat) powi (numeral n) = 2 ^ numeral n"
  "(2::rat) powi (- numeral n) = 1 / 2 ^ numeral n"
  by (simp_all add: power_int_def field_simps)

lemma floor_rat_numeral:
  "\<lfloor>numeral a / numeral b :: rat\<rfloor> = numeral a div numeral b"
  "\<lfloor>- (numeral a / numeral b) :: rat\<rfloor> = - numeral a div numeral b"
  "\<lfloor>1 / numeral b :: rat\<rfloor> = 1 div numeral b"
  "\<lfloor>- (1 / numeral b) :: rat\<rfloor> = - 1 div numeral b"
  using floor_divide_of_int_eq [of "numeral a" "numeral b", where ?'a = rat]
    floor_divide_of_int_eq [of "- numeral a" "numeral b", where ?'a = rat]
    floor_divide_of_int_eq [of 1 "numeral b", where ?'a = rat]
    floor_divide_of_int_eq [of "- 1" "numeral b", where ?'a = rat]
  by simp_all

lemma ceiling_rat_numeral:
  "\<lceil>numeral a / numeral b :: rat\<rceil> = - (- numeral a div numeral b)"
  "\<lceil>- (numeral a / numeral b) :: rat\<rceil> = - (numeral a div numeral b)"
  "\<lceil>1 / numeral b :: rat\<rceil> = - (- 1 div numeral b)"
  "\<lceil>- (1 / numeral b) :: rat\<rceil> = - (1 div numeral b)"
  unfolding ceiling_def by (simp_all add: floor_rat_numeral)

lemmas feval = round32_def rnd_def rne_def rne_floor_def rne_scaled_def overflow32_def
  ilog2_numeral_div ilog2_one_div ilog2_numeral ilog2_one ilog2_minus bitlen_numeral pow2_numeral
  ilog2q_def binade_def i2f_def trunc_def f2l_def f2i_def lit_def fsub_def fle_def
  floor_rat_numeral ceiling_rat_numeral

subsection \<open>Rounding to an integer and to a grid\<close>

lemma rne_of_int: "rne (of_int n) = n"
  by (simp add: rne_def rne_floor_def)

lemma rne_bounds: "\<lfloor>x\<rfloor> \<le> rne x" "rne x \<le> \<lfloor>x\<rfloor> + 1"
  by (simp_all add: rne_def rne_floor_def)

lemma rne_mono:
  assumes "x \<le> y"
  shows "rne x \<le> rne y"
proof (cases "\<lfloor>x\<rfloor> = \<lfloor>y\<rfloor>")
  case True
  have "x - of_int \<lfloor>y\<rfloor> \<le> y - of_int \<lfloor>y\<rfloor>" using assms by simp
  then show ?thesis
    unfolding rne_def rne_floor_def True by auto
next
  case False
  with floor_mono [OF assms] have "\<lfloor>x\<rfloor> + 1 \<le> \<lfloor>y\<rfloor>" by simp
  with rne_bounds(2) [of x] rne_bounds(1) [of y] show ?thesis by linarith
qed

lemma rne_minus: "rne (- x) = - rne x"
proof (cases "of_int \<lfloor>x\<rfloor> = x")
  case True
  then obtain n where "x = of_int n" by metis
  then show ?thesis by (simp add: rne_of_int flip: of_int_minus)
next
  case False
  have lo: "of_int \<lfloor>x\<rfloor> < x"
    by (rule order.not_eq_order_implies_strict [OF False of_int_floor_le])
  have hi: "x < of_int \<lfloor>x\<rfloor> + 1" by linarith
  have fl: "\<lfloor>- x\<rfloor> = - \<lfloor>x\<rfloor> - 1"
    using lo hi by (intro floor_unique) simp_all
  show ?thesis
    unfolding rne_def rne_floor_def fl using lo hi by (auto simp: field_simps)
qed

lemma rne_nonneg: "0 \<le> x \<Longrightarrow> 0 \<le> rne x"
  using rne_mono [of 0 x] rne_of_int [of 0] by simp

lemma rne_scaled_minus: "rne_scaled (- x) q = - rne_scaled x q"
  by (simp add: rne_scaled_def rne_minus)

lemma rne_scaled_mono:
  assumes "x \<le> y"
  shows "rne_scaled x q \<le> rne_scaled y q"
proof -
  have "x / 2 powi q \<le> y / 2 powi q"
    using assms by (simp add: divide_right_mono)
  then have "rat_of_int (rne (x / 2 powi q)) \<le> of_int (rne (y / 2 powi q))"
    by (simp only: of_int_le_iff rne_mono)
  then show ?thesis
    unfolding rne_scaled_def by (rule mult_right_mono) simp
qed

lemma pow2_split:
  assumes "q \<le> k"
  shows "(2::rat) powi k = of_int (2 ^ nat (k - q)) * 2 powi q"
proof -
  have "(2::rat) powi k = 2 powi ((k - q) + q)" by simp
  also have "\<dots> = 2 powi (k - q) * 2 powi q" by (rule power_int_add) simp
  also have "(2::rat) powi (k - q) = of_int (2 ^ nat (k - q))"
    using assms by (simp add: pow2_nat)
  finally show ?thesis .
qed

lemma rne_scaled_int: "rne_scaled (of_int m * 2 powi q) q = of_int m * 2 powi q"
  by (simp add: rne_scaled_def rne_of_int)

text \<open>The spacing exponent of the grid at \<open>x\<close>.\<close>

lemma rnd_minus: "rnd p emin (- x) = - rnd p emin x"
  by (simp add: rnd_def ilog2_minus rne_scaled_minus)

lemma rnd_zero: "rnd p emin 0 = 0"
  by (simp add: rnd_def)

lemma rnd_nonneg: "0 \<le> x \<Longrightarrow> 0 \<le> rnd p emin x"
  by (simp add: rnd_def rne_scaled_def rne_nonneg)

lemma ilog2_mono:
  assumes "0 < x" and "x \<le> y"
  shows "ilog2 x \<le> ilog2 y"
proof -
  have nx: "x \<noteq> 0" and ny: "y \<noteq> 0" using assms by simp_all
  have "2 powi (ilog2 x) \<le> \<bar>x\<bar>" by (rule ilog2_bounds(1) [OF nx])
  also have "\<bar>x\<bar> \<le> \<bar>y\<bar>" using assms by simp
  also have "\<bar>y\<bar> < 2 powi (ilog2 y + 1)" by (rule ilog2_bounds(2) [OF ny])
  finally have "ilog2 x < ilog2 y + 1" by (rule pow2_less_imp)
  then show ?thesis by simp
qed

text \<open>A positive number rounds into the closed binade that contains it.\<close>

lemma rne_scaled_upper:
  assumes "x \<le> 2 powi k" and "q \<le> k"
  shows "rne_scaled x q \<le> 2 powi k"
proof -
  have "rne_scaled x q \<le> rne_scaled (2 powi k) q"
    by (rule rne_scaled_mono [OF assms(1)])
  also have "\<dots> = 2 powi k"
    by (subst (1 2) pow2_split [OF assms(2)]) (rule rne_scaled_int)
  finally show ?thesis .
qed

lemma rne_scaled_lower:
  assumes "2 powi k \<le> x" and "q \<le> k"
  shows "2 powi k \<le> rne_scaled x q"
proof -
  have "rne_scaled (2 powi k) q = 2 powi k"
    by (subst (1 2) pow2_split [OF assms(2)]) (rule rne_scaled_int)
  then have "2 powi k = rne_scaled (2 powi k) q" by simp
  also have "\<dots> \<le> rne_scaled x q"
    by (rule rne_scaled_mono [OF assms(1)])
  finally show ?thesis .
qed

lemma rnd_mono_pos:
  assumes x: "0 < x" and xy: "x \<le> y" and p: "0 < p"
  shows "rnd p emin x \<le> rnd p emin y"
proof -
  let ?qx = "max (ilog2 x) emin - (int p - 1)"
  let ?qy = "max (ilog2 y) emin - (int p - 1)"
  have y: "0 < y" using x xy by simp
  have nx: "x \<noteq> 0" and ny: "y \<noteq> 0" using x y by simp_all
  have rx: "rnd p emin x = rne_scaled x ?qx" and ry: "rnd p emin y = rne_scaled y ?qy"
    using nx ny by (simp_all add: rnd_def)
  have le: "ilog2 x \<le> ilog2 y" by (rule ilog2_mono [OF x xy])
  show ?thesis
  proof (cases "?qx = ?qy")
    case True
    then show ?thesis unfolding rx ry by (simp add: rne_scaled_mono [OF xy])
  next
    case False
    with le have lt: "max (ilog2 x) emin < ilog2 y" and big: "emin < ilog2 y"
      by (auto simp: max_def split: if_splits)
    have qy: "?qy = ilog2 y - (int p - 1)" using big by simp
    have "x \<le> 2 powi (ilog2 x + 1)"
      using ilog2_bounds(2) [OF nx] x by simp
    also have "\<dots> \<le> 2 powi (ilog2 y)"
      using lt by (intro pow2_mono) simp
    finally have "x \<le> 2 powi (ilog2 y)" .
    moreover have "?qx \<le> ilog2 y" using lt p by linarith
    ultimately have "rne_scaled x ?qx \<le> 2 powi (ilog2 y)"
      by (rule rne_scaled_upper)
    also have "\<dots> \<le> rne_scaled y ?qy"
      using ilog2_bounds(1) [OF ny] y p unfolding qy by (intro rne_scaled_lower) simp_all
    finally show ?thesis unfolding rx ry .
  qed
qed

lemma rnd_mono:
  assumes xy: "x \<le> y" and p: "0 < p"
  shows "rnd p emin x \<le> rnd p emin y"
proof -
  consider "0 < x" | "x \<le> 0" "0 \<le> y" | "y < 0" by linarith
  then show ?thesis
  proof cases
    case 1
    then show ?thesis by (rule rnd_mono_pos [OF _ xy p])
  next
    case 2
    have "rnd p emin x \<le> 0"
      using rnd_nonneg [of "- x" p emin] 2(1) by (simp add: rnd_minus)
    also have "0 \<le> rnd p emin y" by (rule rnd_nonneg [OF 2(2)])
    finally show ?thesis .
  next
    case 3
    have "rnd p emin (- y) \<le> rnd p emin (- x)"
      using 3 xy by (intro rnd_mono_pos [OF _ _ p]) simp_all
    then show ?thesis by (simp add: rnd_minus)
  qed
qed

text \<open>Numbers on the grid are not changed by rounding.\<close>

lemma rnd_exact:
  assumes m: "\<bar>m\<bar> < 2 ^ p" and q: "emin - (int p - 1) \<le> q" and p: "0 < p"
  shows "rnd p emin (of_int m * 2 powi q) = of_int m * 2 powi q"
proof (cases "m = 0")
  case True
  then show ?thesis by (simp add: rnd_def)
next
  case False
  let ?x = "rat_of_int m * 2 powi q"
  define r where "r = max (ilog2 ?x) emin - (int p - 1)"
  have nx: "?x \<noteq> 0" using False by simp
  have "2 powi (ilog2 ?x) \<le> \<bar>?x\<bar>" by (rule ilog2_bounds(1) [OF nx])
  also have "\<bar>?x\<bar> = of_int \<bar>m\<bar> * 2 powi q" by (simp add: abs_mult)
  also have "\<dots> < of_int (2 ^ p) * 2 powi q"
    using m by (intro mult_strict_right_mono) (simp_all only: of_int_less_iff pow2_pos)
  also have "\<dots> = 2 powi (int p + q)"
    by (simp add: power_int_add)
  finally have "ilog2 ?x < int p + q" by (rule pow2_less_imp)
  with q have q': "r \<le> q" by (simp add: r_def)
  have eq: "?x = of_int (m * 2 ^ nat (q - r)) * 2 powi r"
    by (subst pow2_split [OF q']) simp
  have "rne_scaled ?x r = ?x"
    by (subst (1 2) eq) (rule rne_scaled_int)
  then show ?thesis using nx by (simp add: rnd_def r_def)
qed

lemma rnd_of_int:
  assumes "\<bar>n\<bar> \<le> 2 ^ p" and "emin \<le> 0" and "0 < p"
  shows "rnd p emin (of_int n) = of_int n"
proof (cases "\<bar>n\<bar> = 2 ^ p")
  case True
  then have "n = 2 ^ p \<or> n = - (2 ^ p)" by (auto simp: abs_if split: if_splits)
  moreover have "rnd p emin (2 ^ p) = 2 ^ p"
  proof -
    have "(2::rat) ^ p = of_int (2 ^ (p - 1)) * 2 powi 1"
      using assms(3) by (cases p) simp_all
    moreover have "rnd p emin (of_int (2 ^ (p - 1)) * 2 powi 1) = of_int (2 ^ (p - 1)) * 2 powi 1"
      using assms(2,3) by (intro rnd_exact) simp_all
    ultimately show ?thesis by simp
  qed
  ultimately show ?thesis by (auto simp: rnd_minus)
next
  case False
  with assms(1) have "\<bar>n\<bar> < 2 ^ p" by simp
  then have "rnd p emin (of_int n * 2 powi 0) = of_int n * 2 powi 0"
    using assms(2,3) by (intro rnd_exact) simp_all
  then show ?thesis by simp
qed

subsection \<open>Binary32 numbers\<close>

lemma rnd_abs: "rnd p emin \<bar>x\<bar> = \<bar>rnd p emin x\<bar>"
proof (cases "0 \<le> x")
  case True
  then show ?thesis using rnd_nonneg [of x p emin] by simp
next
  case False
  then have "0 \<le> - x" by simp
  from rnd_nonneg [OF this, of p emin] False show ?thesis by (simp add: rnd_minus)
qed

lemma rne_scaled_abs_bound:
  assumes "\<bar>x\<bar> \<le> 2 powi k" and "q \<le> k"
  shows "\<bar>rne_scaled x q\<bar> \<le> 2 powi k"
proof -
  have "rne_scaled x q \<le> 2 powi k"
    using assms by (intro rne_scaled_upper) simp_all
  moreover have "rne_scaled (- x) q \<le> 2 powi k"
    using assms by (intro rne_scaled_upper) simp_all
  ultimately show ?thesis by (simp add: rne_scaled_minus abs_le_iff)
qed

lemma rnd_idem:
  assumes p: "0 < p"
  shows "rnd p emin (rnd p emin x) = rnd p emin x"
proof (cases "x = 0")
  case True
  then show ?thesis by (simp add: rnd_def)
next
  case False
  define q where "q = max (ilog2 x) emin - (int p - 1)"
  define m where "m = rne (x / 2 powi q)"
  have r: "rnd p emin x = of_int m * 2 powi q"
    using False by (simp add: rnd_def rne_scaled_def q_def m_def)
  have lo: "emin - (int p - 1) \<le> q" by (simp add: q_def)
  have "\<bar>x\<bar> < 2 powi (ilog2 x + 1)" by (rule ilog2_bounds(2) [OF False])
  also have "\<dots> \<le> 2 powi (q + int p)"
    by (intro pow2_mono) (simp add: q_def)
  finally have "\<bar>x\<bar> \<le> 2 powi (q + int p)" by simp
  then have "\<bar>rne_scaled x q\<bar> \<le> 2 powi (q + int p)"
    by (rule rne_scaled_abs_bound) simp
  moreover have "\<bar>rne_scaled x q\<bar> = \<bar>rat_of_int m\<bar> * 2 powi q"
    by (simp add: rne_scaled_def m_def abs_mult)
  moreover have "(2::rat) powi (q + int p) = 2 ^ p * 2 powi q"
    by (simp add: power_int_add)
  ultimately have "\<bar>rat_of_int m\<bar> * 2 powi q \<le> 2 ^ p * 2 powi q" by simp
  then have "\<bar>rat_of_int m\<bar> \<le> 2 ^ p"
    by (simp only: mult_le_cancel_right pow2_pos)
  then have "rat_of_int \<bar>m\<bar> \<le> rat_of_int (2 ^ p)" by simp
  then have mb: "\<bar>m\<bar> \<le> 2 ^ p" by (simp only: of_int_le_iff)
  show ?thesis
  proof (cases "\<bar>m\<bar> = 2 ^ p")
    case False
    with mb have "\<bar>m\<bar> < 2 ^ p" by simp
    then show ?thesis unfolding r using lo p by (rule rnd_exact)
  next
    case True
    obtain k where k: "p = Suc k" using p by (cases p) auto
    from True have "m = 2 * 2 ^ k \<or> m = - (2 * 2 ^ k)"
      unfolding k by (cases "0 \<le> m") simp_all
    then obtain m' where m2: "m = 2 * m'" and m'b: "\<bar>m'\<bar> < 2 ^ p"
    proof
      assume "m = 2 * 2 ^ k"
      moreover have "\<bar>(2::int) ^ k\<bar> < 2 ^ p" unfolding k by simp
      ultimately show ?thesis by (rule that)
    next
      assume "m = - (2 * 2 ^ k)"
      then have "m = 2 * (- (2 ^ k))" by simp
      moreover have "\<bar>- ((2::int) ^ k)\<bar> < 2 ^ p" unfolding k by simp
      ultimately show ?thesis by (rule that)
    qed
    have "rat_of_int m * 2 powi q = of_int m' * 2 powi (q + 1)"
      by (simp add: m2 power_int_add)
    moreover have "rnd p emin (of_int m' * 2 powi (q + 1)) = of_int m' * 2 powi (q + 1)"
      using m'b _ p by (rule rnd_exact) (use lo in simp)
    ultimately show ?thesis unfolding r by simp
  qed
qed

lemma overflow32_cases:
  "overflow32 y = PInf \<or> overflow32 y = NInf \<or>
   (overflow32 y = Fin y \<and> \<bar>y\<bar> < 340282366920938463463374607431768211456)"
  by (auto simp add: overflow32_def abs_less_iff)

lemma representable_round32: "representable (round32 x)"
  using overflow32_cases [of "rnd 24 (- 126) x"]
  by (auto simp add: representable_def round32_def rnd_idem)

lemma representable_ops:
  "representable (fadd a b)" "representable (fmul a b)" "representable (fdiv a b)"
  "representable (i2f n)" "representable (lit x)"
proof -
  have z: "representable (Fin 0)" by (simp add: representable_def rnd_zero)
  show "representable (fadd a b)"
    by (cases a; cases b) (simp_all add: representable_round32, simp_all add: representable_def)
  show "representable (fmul a b)"
    by (cases a; cases b) (simp_all add: representable_round32, simp_all add: representable_def)
  show "representable (fdiv a b)"
    by (cases a; cases b) (simp_all add: representable_round32 z, simp_all add: representable_def)
  show "representable (i2f n)" by (simp add: i2f_def representable_round32)
  show "representable (lit x)" by (simp add: lit_def representable_round32)
qed

text \<open>A rounded value lies between the rounded end points of an interval around it.\<close>

lemma round32_between:
  assumes "a \<le> x" and "x \<le> b"
    and "rnd 24 (- 126) a = a'" and "rnd 24 (- 126) b = b'"
    and "- 340282366920938463463374607431768211456 < a'"
    and "b' < 340282366920938463463374607431768211456"
  shows "\<exists>y. round32 x = Fin y \<and> a' \<le> y \<and> y \<le> b'"
proof -
  have "a' \<le> rnd 24 (- 126) x" using rnd_mono [OF assms(1), of 24 "- 126"] assms(3) by simp
  moreover have "rnd 24 (- 126) x \<le> b'" using rnd_mono [OF assms(2), of 24 "- 126"] assms(4) by simp
  ultimately show ?thesis using assms(5,6) by (simp add: round32_def overflow32_def)
qed


lemma fmul_shrinks:
  assumes g: "representable (Fin g)" and r: "\<bar>r\<bar> \<le> 1"
  shows "\<exists>x. fmul (Fin g) (Fin r) = Fin x \<and> \<bar>x\<bar> \<le> \<bar>g\<bar>"
proof -
  let ?y = "rnd 24 (- 126) (g * r)"
  have gg: "rnd 24 (- 126) g = g" and gb: "\<bar>g\<bar> < 340282366920938463463374607431768211456"
    using g by (simp_all add: representable_def)
  have "\<bar>g * r\<bar> \<le> \<bar>g\<bar>" using r by (simp add: abs_mult mult_left_le)
  then have "rnd 24 (- 126) \<bar>g * r\<bar> \<le> rnd 24 (- 126) \<bar>g\<bar>" by (intro rnd_mono) simp_all
  then have b: "\<bar>?y\<bar> \<le> \<bar>g\<bar>" by (simp add: rnd_abs gg)
  from b gb have lt: "\<bar>?y\<bar> < 340282366920938463463374607431768211456"
    by (rule le_less_trans)
  from overflow32_cases [of ?y] lt have "overflow32 ?y = Fin ?y"
    by (auto simp add: overflow32_def split: if_splits)
  with b show ?thesis by (simp add: round32_def)
qed

section \<open>Properties of the year loop\<close>

text \<open>Facts about single phases of a year, and rewrite rules that run the year loop on a
  concrete object.\<close>


lemma accounts_upt: "[0..<MAX_ACCOUNTS] = [0, 1, 2, 3]"
  by (simp add: MAX_ACCOUNTS_def upt_rec)

lemma unchanged_refl: "unchanged s s"
  by (simp add: unchanged_def)

lemma unchanged_trans: "unchanged s s1 \<Longrightarrow> unchanged s1 s2 \<Longrightarrow> unchanged s s2"
  by (simp add: unchanged_def)

lemma retire_unchanged: "unchanged s (retire i s)"
  by (simp add: unchanged_def retire_def)

lemma reserve_policy_unchanged: "unchanged s (reserve_policy i s)"
  by (auto simp add: unchanged_def reserve_policy_def clearCashReserve_def addCashReserve_def upd2_def)

lemma shortfall_unchanged: "shortfall i s = Some s' \<Longrightarrow> unchanged s s'"
  by (auto simp add: unchanged_def shortfall_def clearCashReserve_def split: if_splits)

lemma distribute_account_unchanged: "distribute_account i pct c s = Some s' \<Longrightarrow> unchanged s s'"
  by (auto simp add: unchanged_def distribute_account_def upd2_def Let_def split: if_splits option.splits)

lemma distribute_all_unfold:
  "distribute_all i pct s =
     (case distribute_account i pct 0 s of None \<Rightarrow> None
      | Some s1 \<Rightarrow>
     (case distribute_account i pct 1 s1 of None \<Rightarrow> None
      | Some s2 \<Rightarrow>
     (case distribute_account i pct 2 s2 of None \<Rightarrow> None
      | Some s3 \<Rightarrow> distribute_account i pct 3 s3)))"
  by (simp add: distribute_all_def accounts_upt split: option.splits)

lemma distribute_all_unchanged: "distribute_all i pct s = Some s' \<Longrightarrow> unchanged s s'"
  unfolding distribute_all_unfold
  by (auto split: option.splits dest!: distribute_account_unchanged intro: unchanged_trans)

lemma contribute_unchanged: "contribute i ci s = Some s' \<Longrightarrow> unchanged s s'"
  by (auto simp add: unchanged_def contribute_def upd2_def Let_def split: if_splits option.splits)

lemma inflate_expense_unchanged: "inflate_expense i s = Some s' \<Longrightarrow> unchanged s s'"
  by (auto simp add: unchanged_def inflate_expense_def split: if_splits option.splits)

lemma inflate_reserve_unchanged: "inflate_reserve i s = Some s' \<Longrightarrow> unchanged s s'"
  by (auto simp add: unchanged_def inflate_reserve_def split: if_splits option.splits)

lemma after_shortfall_unchanged:
  "after_shortfall i net dtotal ci s = Continue s' \<Longrightarrow> unchanged s s'"
  unfolding after_shortfall_def
  by (auto split: option.splits
      dest!: distribute_all_unchanged contribute_unchanged inflate_expense_unchanged
        inflate_reserve_unchanged
      intro: unchanged_trans)

lemma after_shortfall_not_Break: "after_shortfall i net dtotal ci s \<noteq> Break s'"
  by (simp add: after_shortfall_def split: option.splits)

lemma year_body_unchanged:
  assumes "year_body i s = Continue s' \<or> year_body i s = Break s'"
  shows "unchanged s s'"
proof -
  let ?s1 = "reserve_policy i (retire i s)"
  have s1: "unchanged s ?s1"
    by (rule unchanged_trans [OF retire_unchanged reserve_policy_unchanged])
  show ?thesis
  proof (cases "shortfall i ?s1")
    case None
    with assms have "s' = ?s1" by (simp add: year_body_def Let_def)
    with s1 show ?thesis by simp
  next
    case (Some s2)
    with assms have "after_shortfall i (net_expense i ?s1) (distributable_total i ?s1)
        (contribution_individual i ?s1) s2 = Continue s'"
      by (simp add: year_body_def Let_def after_shortfall_not_Break)
    then have "unchanged s2 s'" by (rule after_shortfall_unchanged)
    with s1 shortfall_unchanged [OF Some] show ?thesis by (blast intro: unchanged_trans)
  qed
qed

lemma year_loop_unchanged: "year_loop i s = Some (k, s') \<Longrightarrow> unchanged s s'"
proof (induction i s rule: year_loop.induct)
  case (1 i s)
  show ?case
  proof (cases "i < MAX_YEARS")
    case False
    with "1.prems" show ?thesis by (simp add: year_loop.simps unchanged_refl)
  next
    case True
    show ?thesis
    proof (cases "year_body i s")
      case (Continue s1)
      with True "1.prems" have "year_loop (i + 1) s1 = Some (k, s')"
        by (simp add: year_loop.simps [of i])
      then have "unchanged s1 s'" by (rule "1.IH" [OF True Continue])
      moreover have "unchanged s s1" using Continue year_body_unchanged [of i s s1] by simp
      ultimately show ?thesis by (blast intro: unchanged_trans)
    next
      case (Break s1)
      with True "1.prems" have "s' = s1" by (simp add: year_loop.simps [of i])
      with Break year_body_unchanged [of i s s1] show ?thesis by simp
    next
      case Undefined
      with True "1.prems" show ?thesis by (simp add: year_loop.simps [of i])
    qed
  qed
qed

lemma upd2_apply: "upd2 a c i v c' i' = (if c' = c \<and> i' = i then v else a c' i')"
  by (simp add: upd2_def)

lemmas year_eval = calculateN_def year_loop.simps year_body_def after_shortfall_def inflate_reserve_def
  inflate_expense_def contribute_def distribute_all_unfold distribute_account_def shortfall_def
  contribution_individual_def net_expense_def distributable_total_def accounts_upt
  reserve_policy_def retire_def clearCashReserve_def addCashReserve_def wrap_int_def
  distribution_percentage_def grow_def upd2_apply MAX_YEARS_def CASH_RESERVE_def INDIVIDUAL_INDEX_def ROTH_INDEX_def
  IRA_INDEX_def R401K_INDEX_def Let_def

lemma wrap_int_id:
  assumes "- 2147483648 \<le> n" and "n < 2147483648"
  shows "wrap_int n = n"
proof -
  have "(n + 2147483648) mod 4294967296 = n + 2147483648"
    using assms by (intro mod_pos_pos_trivial) simp_all
  then show ?thesis by (simp add: wrap_int_def)
qed

lemma wrap_int_0 [simp]: "wrap_int 0 = 0"
  by (simp add: wrap_int_def)

lemma overflow32_small: "\<bar>x\<bar> \<le> 18446744073709551616 \<Longrightarrow> overflow32 x = Fin x"
  by (simp add: overflow32_def abs_le_iff)

lemma i2f_exact:
  assumes "\<bar>n\<bar> \<le> 16777216"
  shows "i2f n = Fin (of_int n)"
proof -
  have "rnd 24 (- 126) (of_int n) = of_int n"
    using assms by (intro rnd_of_int) simp_all
  moreover have "\<bar>rat_of_int n\<bar> \<le> 18446744073709551616"
    using assms by (simp flip: of_int_abs)
  ultimately show ?thesis by (simp add: i2f_def round32_def overflow32_small)
qed

lemma f2l_of_int:
  assumes "\<bar>n\<bar> \<le> 16777216"
  shows "f2l (Fin (of_int n)) = Some n"
  using assms by (auto simp add: f2l_def trunc_def)

lemma grow_zero:
  assumes "\<bar>n\<bar> \<le> 16777216"
  shows "f2l (grow n (Fin 0)) = Some n"
proof -
  have 1: "i2f 1 = Fin 1" using i2f_exact [of 1] by simp
  have "fadd (i2f 1) (Fin 0) = Fin 1"
    using i2f_exact [of 1] by (simp add: 1 round32_def i2f_def)
  then have "grow n (Fin 0) = round32 (of_int n)"
    by (simp add: grow_def i2f_exact [OF assms])
  also have "\<dots> = Fin (of_int n)" using i2f_exact [OF assms] by (simp add: i2f_def)
  finally show ?thesis by (simp add: f2l_of_int [OF assms])
qed

lemma f2i_grow_zero: "f2l (grow 0 (Fin 0)) = Some 0"
  using grow_zero [of 0] by simp

lemma i2f_0: "i2f 0 = Fin 0"
  using i2f_exact [of 0] by simp

lemma ng_env_retire: "ng_env s \<Longrightarrow> ng_env (retire i s)"
  by (simp add: ng_env_def retire_def)

lemma ng_env_reserve_policy:
  assumes "ng_env s" and "i < MAX_YEARS"
  shows "reserve_policy i s = s"
proof -
  have "INDIVIDUAL_INDEX < MAX_ACCOUNTS" by (simp add: INDIVIDUAL_INDEX_def MAX_ACCOUNTS_def)
  moreover have "i - 1 < MAX_YEARS" using assms(2) by simp
  ultimately have "growthRate' s INDIVIDUAL_INDEX (i - 1) = Fin 0"
    using assms(1) by (simp add: ng_env_def)
  then show ?thesis by (simp add: reserve_policy_def i2f_0)
qed

lemma ng_year_retire: "ng_year i e v0 v1 v2 v3 s \<Longrightarrow> ng_year i e v0 v1 v2 v3 (retire i s)"
  by (simp add: ng_year_def ng_env_def retire_def)

lemma ng_year_totals:
  assumes "ng_year i e v0 v1 v2 v3 s" and "i < MAX_YEARS"
  shows "distributable_total i s = v0 + v1 + v2 + v3"
    and "net_expense i s = e" and "contribution_individual i s = 0"
    and "shortfall i s = (if e > v0 + v1 + v2 + v3 then None else Some s)"
proof -
  have av: "availability' s 0 i" "availability' s 1 i" "availability' s 2 i" "availability' s 3 i"
    using assms by (simp_all add: ng_year_def ng_env_def MAX_ACCOUNTS_def)
  have v: "value' s 0 i = v0" "value' s 1 i = v1" "value' s 2 i = v2" "value' s 3 i = v3"
    and e: "expense' s i = e" "0 \<le> e" and z: "takehomeIncome' s = 0" "cashReserve' s = 0"
    using assms by (simp_all add: ng_year_def ng_env_def)
  show dt: "distributable_total i s = v0 + v1 + v2 + v3"
    unfolding distributable_total_def accounts_upt using av v by simp
  show ne: "net_expense i s = e" using e z by (simp add: net_expense_def)
  show "contribution_individual i s = 0" using e z by (simp add: contribution_individual_def)
  show "shortfall i s = (if e > v0 + v1 + v2 + v3 then None else Some s)"
    using z by (simp add: shortfall_def dt ne)
qed

text \<open>The part of a no-growth state that the loop over the accounts does not touch.\<close>

lemma ng_distribute_account:
  assumes env: "ng_env s" and c: "c < MAX_ACCOUNTS" and i: "i < MAX_YEARS"
    and sh: "share (value' s c i) pct = Some w"
  shows "\<exists>s'. distribute_account i pct c s = Some s' \<and> ng_env s' \<and> expense' s' = expense' s \<and>
           (\<forall>c' y. (c', y) \<noteq> (c, i + 1) \<longrightarrow> value' s' c' y = value' s c' y) \<and>
           (i + 1 < MAX_YEARS \<longrightarrow> value' s' c (i + 1) = w)"
proof -
  from sh obtain d where d: "f2l (fmul (i2f (value' s c i)) pct) = Some d"
    and w: "w = value' s c i - d" and small: "\<bar>value' s c i - d\<bar> \<le> 16777216"
    by (auto simp add: share_def split: option.splits if_splits)
  have av: "availability' s c i" and g: "growthRate' s c i = Fin 0"
    using env c i by (simp_all add: ng_env_def)
  show ?thesis
    using env by (simp add: distribute_account_def av g d Let_def upd2_def grow_zero [OF small] w
        ng_env_def)
qed

lemma ng_distribute_all:
  assumes env: "ng_env s" and i: "i < MAX_YEARS"
    and s0: "share (value' s 0 i) pct = Some w0" and s1: "share (value' s 1 i) pct = Some w1"
    and s2: "share (value' s 2 i) pct = Some w2" and s3: "share (value' s 3 i) pct = Some w3"
  shows "\<exists>s'. distribute_all i pct s = Some s' \<and> ng_env s' \<and> expense' s' = expense' s \<and>
           (i + 1 < MAX_YEARS \<longrightarrow> value' s' 0 (i + 1) = w0 \<and> value' s' 1 (i + 1) = w1 \<and>
              value' s' 2 (i + 1) = w2 \<and> value' s' 3 (i + 1) = w3)"
proof -
  have c: "0 < MAX_ACCOUNTS" "1 < MAX_ACCOUNTS" "2 < MAX_ACCOUNTS" "3 < MAX_ACCOUNTS"
    by (simp_all add: MAX_ACCOUNTS_def)
  from ng_distribute_account [OF env c(1) i s0] obtain t0 where
    t0: "distribute_account i pct 0 s = Some t0" "ng_env t0" "expense' t0 = expense' s"
      "\<forall>c' y. (c', y) \<noteq> (0, i + 1) \<longrightarrow> value' t0 c' y = value' s c' y"
      "i + 1 < MAX_YEARS \<longrightarrow> value' t0 0 (i + 1) = w0"
    by blast
  have "share (value' t0 1 i) pct = Some w1" using s1 t0(4) by simp
  from ng_distribute_account [OF t0(2) c(2) i this] obtain t1 where
    t1: "distribute_account i pct 1 t0 = Some t1" "ng_env t1" "expense' t1 = expense' t0"
      "\<forall>c' y. (c', y) \<noteq> (1, i + 1) \<longrightarrow> value' t1 c' y = value' t0 c' y"
      "i + 1 < MAX_YEARS \<longrightarrow> value' t1 1 (i + 1) = w1"
    by blast
  have "share (value' t1 2 i) pct = Some w2" using s2 t0(4) t1(4) by simp
  from ng_distribute_account [OF t1(2) c(3) i this] obtain t2 where
    t2: "distribute_account i pct 2 t1 = Some t2" "ng_env t2" "expense' t2 = expense' t1"
      "\<forall>c' y. (c', y) \<noteq> (2, i + 1) \<longrightarrow> value' t2 c' y = value' t1 c' y"
      "i + 1 < MAX_YEARS \<longrightarrow> value' t2 2 (i + 1) = w2"
    by blast
  have "share (value' t2 3 i) pct = Some w3" using s3 t0(4) t1(4) t2(4) by simp
  from ng_distribute_account [OF t2(2) c(4) i this] obtain t3 where
    t3: "distribute_account i pct 3 t2 = Some t3" "ng_env t3" "expense' t3 = expense' t2"
      "\<forall>c' y. (c', y) \<noteq> (3, i + 1) \<longrightarrow> value' t3 c' y = value' t2 c' y"
      "i + 1 < MAX_YEARS \<longrightarrow> value' t3 3 (i + 1) = w3"
    by blast
  have "distribute_all i pct s = Some t3"
    by (simp only: distribute_all_unfold t0(1) t1(1) t2(1) t3(1) option.case)
  moreover have "expense' t3 = expense' s" by (simp add: t0(3) t1(3) t2(3) t3(3))
  moreover have "i + 1 < MAX_YEARS \<longrightarrow> value' t3 0 (i + 1) = w0 \<and> value' t3 1 (i + 1) = w1 \<and>
      value' t3 2 (i + 1) = w2 \<and> value' t3 3 (i + 1) = w3"
    using t0(5) t1(4,5) t2(4,5) t3(4,5) by simp
  ultimately show ?thesis using t3(2) by blast
qed

lemma ng_contribute:
  assumes env: "ng_env s" and i: "i < MAX_YEARS"
  shows "\<exists>s'. contribute i 0 s = Some s' \<and> ng_env s' \<and> expense' s' = expense' s \<and>
           value' s' = value' s"
proof -
  have infl: "inflation' s i = Fin 0" using env i by (simp add: ng_env_def)
  have z: "takehomeIncome' s = 0" "contributionRoth' s = 0" "contributionIra' s = 0"
      "contributionR401k' s = 0"
    using env by (simp_all add: ng_env_def)
  show ?thesis
    using env by (simp add: contribute_def infl z f2i_grow_zero Let_def upd2_def ng_env_def)
qed

lemma ng_inflate:
  assumes env: "ng_env s" and i: "i < MAX_YEARS" and e: "\<bar>expense' s i\<bar> \<le> 16777216"
  shows "\<exists>s1 s'. inflate_expense i s = Some s1 \<and> inflate_reserve i s1 = Some s' \<and> ng_env s' \<and>
           value' s' = value' s \<and> (i + 1 < MAX_YEARS \<longrightarrow> expense' s' (i + 1) = expense' s i)"
proof -
  have infl: "inflation' s i = Fin 0" using env i by (simp add: ng_env_def)
  have r: "cashReserve' s = 0" using env by (simp add: ng_env_def)
  show ?thesis
    using env
    by (simp add: inflate_expense_def inflate_reserve_def infl r grow_zero [OF e] ng_env_def)
qed

lemma ng_year_break:
  assumes "ng_year i e v0 v1 v2 v3 s" and "i < MAX_YEARS" and "e > v0 + v1 + v2 + v3"
  shows "\<exists>s'. year_body i s = Break s'"
proof -
  have r: "ng_year i e v0 v1 v2 v3 (retire i s)" by (rule ng_year_retire [OF assms(1)])
  then have "ng_env (retire i s)" by (simp add: ng_year_def)
  then have p: "reserve_policy i (retire i s) = retire i s"
    by (rule ng_env_reserve_policy [OF _ assms(2)])
  show ?thesis
    using assms(3) by (simp add: year_body_def p ng_year_totals(4) [OF r assms(2)] Let_def)
qed

lemma ng_year_continue:
  assumes y: "ng_year i e v0 v1 v2 v3 s" and i: "i < MAX_YEARS"
    and le: "\<not> e > v0 + v1 + v2 + v3"
    and s0: "share v0 (distribution_percentage e (v0 + v1 + v2 + v3)) = Some w0"
    and s1: "share v1 (distribution_percentage e (v0 + v1 + v2 + v3)) = Some w1"
    and s2: "share v2 (distribution_percentage e (v0 + v1 + v2 + v3)) = Some w2"
    and s3: "share v3 (distribution_percentage e (v0 + v1 + v2 + v3)) = Some w3"
  shows "\<exists>s'. year_body i s = Continue s' \<and> (i + 1 < MAX_YEARS \<longrightarrow> ng_year (i + 1) e w0 w1 w2 w3 s')"
proof -
  let ?r = "retire i s"
  let ?pct = "distribution_percentage e (v0 + v1 + v2 + v3)"
  have r: "ng_year i e v0 v1 v2 v3 ?r" by (rule ng_year_retire [OF y])
  then have env: "ng_env ?r" and vals: "value' ?r 0 i = v0" "value' ?r 1 i = v1"
      "value' ?r 2 i = v2" "value' ?r 3 i = v3" and ex: "expense' ?r i = e" "0 \<le> e" "e \<le> 16777216"
    by (simp_all add: ng_year_def)
  have p: "reserve_policy i ?r = ?r" by (rule ng_env_reserve_policy [OF env i])
  note tot = ng_year_totals [OF r i]
  from ng_distribute_all [OF env i, of ?pct w0 w1 w2 w3] s0 s1 s2 s3 vals
  obtain t where t: "distribute_all i ?pct ?r = Some t" "ng_env t" "expense' t = expense' ?r"
      "i + 1 < MAX_YEARS \<longrightarrow> value' t 0 (i + 1) = w0 \<and> value' t 1 (i + 1) = w1 \<and>
         value' t 2 (i + 1) = w2 \<and> value' t 3 (i + 1) = w3"
    by auto
  from ng_contribute [OF t(2) i]
  obtain u where u: "contribute i 0 t = Some u" "ng_env u" "expense' u = expense' t"
      "value' u = value' t"
    by blast
  have "\<bar>expense' u i\<bar> \<le> 16777216" using ex by (simp add: u(3) t(3))
  from ng_inflate [OF u(2) i this]
  obtain x s' where x: "inflate_expense i u = Some x" "inflate_reserve i x = Some s'" "ng_env s'"
      "value' s' = value' u" "i + 1 < MAX_YEARS \<longrightarrow> expense' s' (i + 1) = expense' u i"
    by blast
  have "year_body i s = Continue s'"
    using le by (simp add: year_body_def p tot Let_def after_shortfall_def t(1) u(1) x(1,2))
  moreover have "i + 1 < MAX_YEARS \<longrightarrow> ng_year (i + 1) e w0 w1 w2 w3 s'"
    using x(3,4,5) u(3,4) t(3,4) ex by (simp add: ng_year_def)
  ultimately show ?thesis by blast
qed

lemma ng_loop_sound:
  "ng_loop i e v0 v1 v2 v3 = Some k \<Longrightarrow> i < MAX_YEARS \<longrightarrow> ng_year i e v0 v1 v2 v3 s \<Longrightarrow>
     \<exists>s'. year_loop i s = Some (k, s')"
proof (induction i e v0 v1 v2 v3 arbitrary: s rule: ng_loop.induct)
  case (1 i e v0 v1 v2 v3)
  show ?case
  proof (cases "i < MAX_YEARS")
    case False
    with "1.prems"(1) have k: "k = i" by (simp add: ng_loop.simps [of i])
    have "year_loop i s = Some (i, s)" using False by (simp add: year_loop.simps [of i])
    then show ?thesis unfolding k by blast
  next
    case True
    with "1.prems"(2) have y: "ng_year i e v0 v1 v2 v3 s" by simp
    show ?thesis
    proof (cases "e > v0 + v1 + v2 + v3")
      case gt: True
      from ng_year_break [OF y True gt] obtain s' where b: "year_body i s = Break s'" by blast
      from True gt "1.prems"(1) have k: "k = i" by (simp add: ng_loop.simps [of i])
      have "year_loop i s = Some (i, s')" using True b by (simp add: year_loop.simps [of i])
      then show ?thesis unfolding k by blast
    next
      case le: False
      let ?pct = "distribution_percentage e (v0 + v1 + v2 + v3)"
      from True le "1.prems"(1) obtain w0 w1 w2 w3 where
        sh: "share v0 ?pct = Some w0" "share v1 ?pct = Some w1" "share v2 ?pct = Some w2"
          "share v3 ?pct = Some w3"
        and rec: "ng_loop (i + 1) e w0 w1 w2 w3 = Some k"
        by (auto simp add: ng_loop.simps [of i] split: option.splits)
      from ng_year_continue [OF y True le sh] obtain s1 where
        s1: "year_body i s = Continue s1"
          "i + 1 < MAX_YEARS \<longrightarrow> ng_year (i + 1) e w0 w1 w2 w3 s1"
        by blast
      from "1.IH" [OF True le sh rec s1(2)] obtain s' where "year_loop (i + 1) s1 = Some (k, s')"
        by blast
      with True s1(1) show ?thesis by (simp add: year_loop.simps [of i])
    qed
  qed
qed

lemma year_loop_Break: "i < MAX_YEARS \<Longrightarrow> year_body i s = Break s' \<Longrightarrow> year_loop i s = Some (i, s')"
  by (simp add: year_loop.simps [of i])

lemma year_body_shortfall:
  "year_body i s =
     (let s1 = reserve_policy i (retire i s);
          net = net_expense i s1;
          dtotal = distributable_total i s1;
          ci = contribution_individual i s1
      in if net \<le> dtotal then after_shortfall i net dtotal ci s1
         else if net < dtotal + cashReserve' s1
         then after_shortfall i net dtotal ci
                (clearCashReserve (s1\<lparr>expense' := (expense' s1)(i := expense' s1 i - cashReserve' s1)\<rparr>))
         else Break s1)"
  by (simp add: year_body_def shortfall_def Let_def not_le)

lemma distribute_account_effect:
  assumes "distribute_account i pct c s = Some s'"
  shows "takehomeIncome' s' = takehomeIncome' s \<and> contributionRoth' s' = contributionRoth' s \<and>
         contributionIra' s' = contributionIra' s \<and> contributionR401k' s' = contributionR401k' s \<and>
         expense' s' = expense' s \<and> cashReserve' s' = cashReserve' s \<and>
         growthRate' s' = growthRate' s"
    and "\<forall>c' y. (c', y) \<noteq> (c, i + 1) \<longrightarrow> value' s' c' y = value' s c' y"
    and "\<forall>c' y. (c', y) \<noteq> (c, i) \<longrightarrow> distribution' s' c' y = distribution' s c' y"
    and "i + 1 < MAX_YEARS \<longrightarrow>
           f2l (grow (value' s c i - distribution' s' c i) (growthRate' s c i))
             = Some (value' s' c (i + 1))"
proof -
  show "takehomeIncome' s' = takehomeIncome' s \<and> contributionRoth' s' = contributionRoth' s \<and>
         contributionIra' s' = contributionIra' s \<and> contributionR401k' s' = contributionR401k' s \<and>
         expense' s' = expense' s \<and> cashReserve' s' = cashReserve' s \<and>
         growthRate' s' = growthRate' s"
    using assms
    by (simp add: distribute_account_def Let_def split: option.splits if_splits) auto
  show "\<forall>c' y. (c', y) \<noteq> (c, i + 1) \<longrightarrow> value' s' c' y = value' s c' y"
    using assms
    by (simp add: distribute_account_def Let_def split: option.splits if_splits)
      (auto simp add: upd2_def)
  show "\<forall>c' y. (c', y) \<noteq> (c, i) \<longrightarrow> distribution' s' c' y = distribution' s c' y"
    using assms
    by (simp add: distribute_account_def Let_def split: option.splits if_splits)
      (auto simp add: upd2_def)
  show "i + 1 < MAX_YEARS \<longrightarrow>
           f2l (grow (value' s c i - distribution' s' c i) (growthRate' s c i))
             = Some (value' s' c (i + 1))"
    using assms
    by (simp add: distribute_account_def Let_def split: option.splits if_splits)
      (auto simp add: upd2_def)
qed

lemma accounts_cases: "c < MAX_ACCOUNTS \<Longrightarrow> c = 0 \<or> c = 1 \<or> c = 2 \<or> c = 3"
  unfolding MAX_ACCOUNTS_def by arith

lemma distribute_all_effect:
  assumes all: "distribute_all i pct s = Some s'" and c: "c < MAX_ACCOUNTS"
  shows "takehomeIncome' s' = takehomeIncome' s \<and> contributionRoth' s' = contributionRoth' s \<and>
         contributionIra' s' = contributionIra' s \<and> contributionR401k' s' = contributionR401k' s \<and>
         expense' s' = expense' s \<and> cashReserve' s' = cashReserve' s \<and>
         growthRate' s' = growthRate' s"
    and "value' s' c i = value' s c i"
    and "i + 1 < MAX_YEARS \<longrightarrow>
           f2l (grow (value' s c i - distribution' s' c i) (growthRate' s c i))
             = Some (value' s' c (i + 1))"
proof -
  from all obtain t0 t1 t2 where
    t0: "distribute_account i pct 0 s = Some t0" and t1: "distribute_account i pct 1 t0 = Some t1"
    and t2: "distribute_account i pct 2 t1 = Some t2" and t3: "distribute_account i pct 3 t2 = Some s'"
    by (auto simp add: distribute_all_unfold split: option.splits)
  note e0 = distribute_account_effect [OF t0] and e1 = distribute_account_effect [OF t1]
    and e2 = distribute_account_effect [OF t2] and e3 = distribute_account_effect [OF t3]
  show "takehomeIncome' s' = takehomeIncome' s \<and> contributionRoth' s' = contributionRoth' s \<and>
         contributionIra' s' = contributionIra' s \<and> contributionR401k' s' = contributionR401k' s \<and>
         expense' s' = expense' s \<and> cashReserve' s' = cashReserve' s \<and>
         growthRate' s' = growthRate' s"
    using e0(1) e1(1) e2(1) e3(1) by simp
  from accounts_cases [OF c] consider "c = 0" | "c = 1" | "c = 2" | "c = 3" by blast
  then show "value' s' c i = value' s c i"
    using e0(2) e1(2) e2(2) e3(2) by cases simp_all
  have g: "growthRate' t0 = growthRate' s" "growthRate' t1 = growthRate' s"
      "growthRate' t2 = growthRate' s"
    using e0(1) e1(1) e2(1) by simp_all
  from accounts_cases [OF c] consider "c = 0" | "c = 1" | "c = 2" | "c = 3" by blast
  then show "i + 1 < MAX_YEARS \<longrightarrow>
           f2l (grow (value' s c i - distribution' s' c i) (growthRate' s c i))
             = Some (value' s' c (i + 1))"
  proof cases
    case 1
    then show ?thesis using e0(2,3,4) e1(2,3) e2(2,3) e3(2,3) by simp
  next
    case 2
    then show ?thesis using e0(2,3) e1(2,3,4) e2(2,3) e3(2,3) g by simp
  next
    case 3
    then show ?thesis using e0(2,3) e1(2,3) e2(2,3,4) e3(2,3) g by simp
  next
    case 4
    then show ?thesis using e0(2,3) e1(2,3) e2(2,3) e3(2,3,4) g by simp
  qed
qed

lemma reserve_policy_value: "value' (reserve_policy i s) = value' s"
  by (auto simp add: reserve_policy_def clearCashReserve_def addCashReserve_def CASH_RESERVE_def
      upd2_def)

lemma reserve_policy_contributions:
  "contributionRoth' (reserve_policy i s) = contributionRoth' s \<and>
   contributionIra' (reserve_policy i s) = contributionIra' s \<and>
   contributionR401k' (reserve_policy i s) = contributionR401k' s \<and>
   takehomeIncome' (reserve_policy i s) = takehomeIncome' s"
  by (simp add: reserve_policy_def clearCashReserve_def addCashReserve_def)

lemma shortfall_effect:
  assumes "shortfall i s = Some s'"
  shows "value' s' = value' s \<and> contributionRoth' s' = contributionRoth' s \<and>
     contributionIra' s' = contributionIra' s \<and> contributionR401k' s' = contributionR401k' s \<and>
     takehomeIncome' s' = takehomeIncome' s"
  using assms by (auto simp add: shortfall_def clearCashReserve_def split: if_splits)

lemma contribute_effect:
  assumes "contribute i ci s = Some s'" and "c < MAX_ACCOUNTS"
  shows "distribution' s' = distribution' s"
    and "value' s' c (i + 1) =
           value' s c (i + 1) +
             (if int i < yearsTillRetirement' s \<and> i + 1 < MAX_YEARS
              then (if c = INDIVIDUAL_INDEX then ci
                    else if c = ROTH_INDEX then contributionRoth' s
                    else if c = IRA_INDEX then contributionIra' s
                    else contributionR401k' s)
              else 0)"
proof -
  show "distribution' s' = distribution' s"
    using assms(1) by (auto simp add: contribute_def Let_def split: if_splits option.splits)
  from accounts_cases [OF assms(2)] consider "c = 0" | "c = 1" | "c = 2" | "c = 3" by blast
  then show "value' s' c (i + 1) =
           value' s c (i + 1) +
             (if int i < yearsTillRetirement' s \<and> i + 1 < MAX_YEARS
              then (if c = INDIVIDUAL_INDEX then ci
                    else if c = ROTH_INDEX then contributionRoth' s
                    else if c = IRA_INDEX then contributionIra' s
                    else contributionR401k' s)
              else 0)"
    using assms(1)
    by cases
      (auto simp add: contribute_def Let_def upd2_def INDIVIDUAL_INDEX_def ROTH_INDEX_def
        IRA_INDEX_def R401K_INDEX_def split: if_splits option.splits)
qed

lemma inflate_effect:
  "inflate_expense i s = Some s' \<Longrightarrow> value' s' = value' s \<and> distribution' s' = distribution' s"
  "inflate_reserve i s = Some s' \<Longrightarrow> value' s' = value' s \<and> distribution' s' = distribution' s"
  by (auto simp add: inflate_expense_def inflate_reserve_def split: if_splits option.splits)

lemma init_year_account_availability:
  assumes "i \<noteq> 0"
  shows "availability' (init_year_account user i s c) =
     (\<lambda>c' y. if y = i \<and> c' = 0 then availability' s 0 0
              else if y = i \<and> (c' = 1 \<or> c' = 2 \<or> c' = 3)
              then (if i < user_yearsTillRetirement user then availability' s c' 0 else True)
              else availability' s c' y)"
  using assms
  by (auto simp add: init_year_account_def Let_def upd2_def fun_eq_iff INDIVIDUAL_INDEX_def
      ROTH_INDEX_def IRA_INDEX_def R401K_INDEX_def)

lemma init_year_availability:
  assumes "i \<noteq> 0"
  shows "availability' (init_year user s i) =
     (\<lambda>c' y. if y = i \<and> c' = 0 then availability' s 0 0
              else if y = i \<and> (c' = 1 \<or> c' = 2 \<or> c' = 3)
              then (if i < user_yearsTillRetirement user then availability' s c' 0 else True)
              else availability' s c' y)"
  using assms
  by (auto simp add: init_year_def accounts_upt Let_def init_year_account_availability fun_eq_iff)

lemma init_years_availability:
  "1 \<le> k \<Longrightarrow>
   (\<forall>c. availability' (foldl (init_year user) s [1..<k]) c 0 = availability' s c 0) \<and>
   (\<forall>i. 1 \<le> i \<and> i < k \<longrightarrow>
      availability' (foldl (init_year user) s [1..<k]) 0 i = availability' s 0 0 \<and>
      (\<forall>c. c = 1 \<or> c = 2 \<or> c = 3 \<longrightarrow>
         availability' (foldl (init_year user) s [1..<k]) c i =
           (if i < user_yearsTillRetirement user then availability' s c 0 else True)))"
proof (induction k rule: nat_induct_at_least)
  case base
  then show ?case by simp
next
  case (Suc k)
  then have k: "k \<noteq> 0" by simp
  have "[1..<Suc k] = [1..<k] @ [k]" using Suc.hyps by simp
  then have step: "foldl (init_year user) s [1..<Suc k]
      = init_year user (foldl (init_year user) s [1..<k]) k"
    by simp
  show ?case
    unfolding step init_year_availability [OF k]
    using Suc.IH k by (auto simp add: less_Suc_eq)
qed

lemma init_scalars_availability:
  "availability' (init_scalars user s) 0 0 \<and> \<not> availability' (init_scalars user s) 1 0 \<and>
   \<not> availability' (init_scalars user s) 2 0 \<and> \<not> availability' (init_scalars user s) 3 0"
  by (simp add: init_scalars_def Let_def addCashReserve_def clearCashReserve_def upd2_def
      INDIVIDUAL_INDEX_def ROTH_INDEX_def IRA_INDEX_def R401K_INDEX_def)

subsection \<open>Relative error of a rounding\<close>

lemma rne_half: "\<bar>of_int (rne r) - r\<bar> \<le> 1 / 2"
proof -
  have "of_int \<lfloor>r\<rfloor> \<le> r" "r < of_int \<lfloor>r\<rfloor> + 1" by linarith+
  then show ?thesis
    unfolding rne_def rne_floor_def by (auto simp add: abs_if) linarith+
qed

lemma rnd_relative:
  assumes x: "2 powi emin \<le> x" and p: "0 < p"
  shows "\<bar>rnd p emin x - x\<bar> \<le> x / 2 ^ p"
proof -
  have pos: "0 < x" using pow2_pos [of emin] x by (rule less_le_trans)
  then have nz: "x \<noteq> 0" by simp
  let ?k = "ilog2 x"
  let ?q = "?k - (int p - 1)"
  have lo: "2 powi ?k \<le> x" using ilog2_bounds(1) [OF nz] pos by simp
  have "x < 2 powi (?k + 1)" using ilog2_bounds(2) [OF nz] pos by simp
  with x have "(2::rat) powi emin < 2 powi (?k + 1)" by simp
  then have "emin < ?k + 1" by (rule pow2_less_imp)
  then have q: "max ?k emin - (int p - 1) = ?q" by simp
  have r: "rnd p emin x = of_int (rne (x / 2 powi ?q)) * 2 powi ?q"
    using nz by (simp add: rnd_def rne_scaled_def q)
  have qpos: "(0::rat) < 2 powi ?q" by (rule pow2_pos)
  have "rnd p emin x - x = (of_int (rne (x / 2 powi ?q)) - x / 2 powi ?q) * 2 powi ?q"
    using qpos by (simp add: r field_simps)
  then have "\<bar>rnd p emin x - x\<bar> = \<bar>of_int (rne (x / 2 powi ?q)) - x / 2 powi ?q\<bar> * 2 powi ?q"
    using qpos by (simp add: abs_mult)
  also have "\<dots> \<le> 1 / 2 * 2 powi ?q"
    using rne_half [of "x / 2 powi ?q"] qpos by (intro mult_right_mono) simp_all
  also have "\<dots> = 2 powi ?k / 2 ^ p"
  proof -
    have "(2::rat) powi ?k = of_int (2 ^ nat (?k - ?q)) * 2 powi ?q"
      using p by (intro pow2_split) simp
    moreover have "nat (?k - ?q) = p - 1" using p by simp
    moreover have "(2::rat) ^ p = 2 * 2 ^ (p - 1)" using p by (cases p) simp_all
    ultimately show ?thesis by simp
  qed
  also have "\<dots> \<le> x / 2 ^ p" using lo by (simp add: divide_right_mono)
  finally show ?thesis .
qed

lemma rnd24_upper:
  assumes "0 \<le> x" and "x = 0 \<or> 1 / 2 ^ 126 \<le> x"
  shows "rnd 24 (- 126) x \<le> x * (1 + 1 / 16777216)"
proof (cases "x = 0")
  case True
  then show ?thesis by (simp add: rnd_zero)
next
  case False
  with assms have "2 powi (- 126) \<le> x" by (simp add: pow2_numeral)
  from rnd_relative [OF this, of 24] have "\<bar>rnd 24 (- 126) x - x\<bar> \<le> x / 16777216" by simp
  then have "rnd 24 (- 126) x - x \<le> x / 16777216" "- (rnd 24 (- 126) x - x) \<le> x / 16777216"
    by (simp_all only: abs_le_iff)
  then show ?thesis by (simp add: algebra_simps)
qed

lemma rnd24_lower:
  assumes "1 \<le> x"
  shows "x * (1 - 1 / 16777216) \<le> rnd 24 (- 126) x"
proof -
  have "(2::rat) powi (- 126) \<le> 1" by (simp add: pow2_numeral)
  with assms have "2 powi (- 126) \<le> x" by simp
  from rnd_relative [OF this, of 24] have "\<bar>rnd 24 (- 126) x - x\<bar> \<le> x / 16777216" by simp
  then have "rnd 24 (- 126) x - x \<le> x / 16777216" "- (rnd 24 (- 126) x - x) \<le> x / 16777216"
    by (simp_all only: abs_le_iff)
  then show ?thesis by (simp add: algebra_simps)
qed

subsection \<open>What a year without growth withdraws\<close>

text \<open>With an expense of at most \<open>2 ^ 22\<close> and account values of at most \<open>2 ^ 24\<close>, the
  four truncated withdrawals of a year add up to at most the expense and to at least the
  expense minus 4.\<close>

lemma round32_rnd:
  assumes "round32 x = Fin y"
  shows "y = rnd 24 (- 126) x"
  using assms by (auto simp add: round32_def overflow32_def split: if_splits)

lemma percentage_upper:
  assumes e: "0 < e" "e \<le> 16777216" and T: "e \<le> T" "T \<le> 67108864"
  shows "\<exists>p. distribution_percentage e T = Fin p \<and> 1 / 2 ^ 126 \<le> p \<and> p \<le> 1 \<and>
           p * (of_int T * (1 - 1 / 16777216)) \<le> of_int e * (1 + 1 / 16777216)"
proof -
  define Tf where "Tf = rnd 24 (- 126) (of_int T)"
  have ie: "i2f e = Fin (of_int e)" using e by (intro i2f_exact) simp
  have re: "rnd 24 (- 126) (of_int e) = of_int e" using e by (intro rnd_of_int) simp_all
  have T1: "(1::rat) \<le> of_int T" using e(1) T(1) by simp
  have lo: "of_int T * (1 - 1 / 16777216) \<le> Tf" unfolding Tf_def by (rule rnd24_lower [OF T1])
  have "rnd 24 (- 126) (of_int T) \<le> rnd 24 (- 126) 67108864"
    using T(2) by (intro rnd_mono) simp_all
  also have "\<dots> = 67108864" by (simp add: feval)
  finally have hi: "Tf \<le> 67108864" unfolding Tf_def .
  have "rnd 24 (- 126) (of_int e) \<le> rnd 24 (- 126) (of_int T)"
    using T(1) by (intro rnd_mono) simp_all
  then have eT: "of_int e \<le> Tf" unfolding Tf_def re .
  have e1: "(1::rat) \<le> of_int e" using e(1) by simp
  with eT have Tpos: "0 < Tf" by simp
  have iT: "i2f T = Fin Tf"
    using hi Tpos by (simp add: i2f_def round32_def Tf_def [symmetric] overflow32_small)
  define q where "q = of_int e / Tf"
  have q1: "q \<le> 1" using eT Tpos by (simp add: q_def)
  have "1 / 67108864 \<le> 1 / Tf" using hi Tpos by (simp add: frac_le)
  also have "\<dots> \<le> q" unfolding q_def using e1 Tpos by (simp add: divide_right_mono)
  finally have q0: "1 / 67108864 \<le> q" .
  have bounds: "rnd 24 (- 126) (1 / 67108864) = 1 / 67108864" "rnd 24 (- 126) 1 = 1"
    by (simp_all add: feval)
  from round32_between [OF q0 q1 bounds] obtain p where
    p: "round32 q = Fin p" "1 / 67108864 \<le> p" "p \<le> 1"
    by auto
  have "p = rnd 24 (- 126) q" by (rule round32_rnd [OF p(1)])
  moreover have "0 \<le> q" "q = 0 \<or> 1 / 2 ^ 126 \<le> q" using q0 by simp_all
  ultimately have "p \<le> q * (1 + 1 / 16777216)" using rnd24_upper by simp
  then have "p * Tf \<le> of_int e * (1 + 1 / 16777216)"
    using Tpos by (simp add: q_def field_simps)
  moreover have "p * (of_int T * (1 - 1 / 16777216)) \<le> p * Tf"
    using lo p(2) by (intro mult_left_mono) simp_all
  ultimately have "p * (of_int T * (1 - 1 / 16777216)) \<le> of_int e * (1 + 1 / 16777216)"
    by (rule order_trans [rotated])
  moreover have "distribution_percentage e T = Fin p"
    using Tpos p(1) by (simp add: distribution_percentage_def ie iT q_def)
  moreover have "1 / 2 ^ 126 \<le> p" using p(2) by simp
  ultimately show ?thesis using p(3) by blast
qed

lemma withdrawal_upper:
  assumes v: "0 \<le> v" "v \<le> 16777216" and p: "1 / 2 ^ 126 \<le> p" "p \<le> 1"
  shows "\<exists>d. f2l (fmul (i2f v) (Fin p)) = Some d \<and> 0 \<le> d \<and> d \<le> v \<and>
           of_int d \<le> of_int v * p * (1 + 1 / 16777216)"
proof -
  have p0: "0 \<le> p" using p(1) by simp
  have e: "i2f v = Fin (of_int v)" using v by (intro i2f_exact) simp
  have rv: "rnd 24 (- 126) (of_int v) = of_int v" using v by (intro rnd_of_int) simp_all
  have bot: "rnd 24 (- 126) 0 = 0" by (simp add: feval)
  have x: "0 \<le> rat_of_int v * p" "rat_of_int v * p \<le> of_int v"
    using v p0 p(2) by (simp_all add: mult_left_le)
  from round32_between [OF this bot rv] v obtain y where
    y: "round32 (of_int v * p) = Fin y" "0 \<le> y" "y \<le> of_int v"
    by auto
  have "of_int v * p = 0 \<or> 1 / 2 ^ 126 \<le> of_int v * p"
  proof (cases "v = 0")
    case True
    then show ?thesis by simp
  next
    case False
    with v(1) have "(1::rat) \<le> of_int v" by simp
    then have "1 * p \<le> of_int v * p" using p0 by (intro mult_right_mono)
    then have "p \<le> of_int v * p" by (simp only: mult_1)
    from order_trans [OF p(1) this] show ?thesis ..
  qed
  with rnd24_upper [OF x(1)] round32_rnd [OF y(1)]
  have up: "y \<le> of_int v * p * (1 + 1 / 16777216)" by simp
  have f: "0 \<le> \<lfloor>y\<rfloor>" "\<lfloor>y\<rfloor> \<le> v" using y(2,3) by (simp_all add: floor_le_iff le_floor_iff)
  have "of_int \<lfloor>y\<rfloor> \<le> y" by simp
  with up have "of_int \<lfloor>y\<rfloor> \<le> of_int v * p * (1 + 1 / 16777216)" by linarith
  moreover have "y < 9223372036854775808" using y(3) v(2) by simp
  then have "f2l (fmul (i2f v) (Fin p)) = Some \<lfloor>y\<rfloor>"
    using f y(2) by (simp add: e y(1) f2l_def trunc_def)
  ultimately show ?thesis using f by blast
qed

lemma share_upper:
  assumes v: "0 \<le> v" "v \<le> 16777216" and p: "1 / 2 ^ 126 \<le> p" "p \<le> 1"
  shows "\<exists>w. share v (Fin p) = Some w \<and> 0 \<le> w \<and> w \<le> 16777216 \<and>
           of_int (v - w) \<le> of_int v * p * (1 + 1 / 16777216)"
proof -
  from withdrawal_upper [OF assms] obtain d where
    d: "f2l (fmul (i2f v) (Fin p)) = Some d" "0 \<le> d" "d \<le> v"
      "of_int d \<le> of_int v * p * (1 + 1 / 16777216)"
    by blast
  have "share v (Fin p) = Some (v - d)" using d(2,3) v by (simp add: share_def d(1))
  then show ?thesis using d v by auto
qed

lemma shares_cover:
  assumes v: "0 \<le> v0" "v0 \<le> 16777216" "0 \<le> v1" "v1 \<le> 16777216"
      "0 \<le> v2" "v2 \<le> 16777216" "0 \<le> v3" "v3 \<le> 16777216"
    and e: "0 < e" "e \<le> 4194304" "e \<le> v0 + v1 + v2 + v3"
  shows "\<exists>w0 w1 w2 w3.
           share v0 (distribution_percentage e (v0 + v1 + v2 + v3)) = Some w0 \<and>
           share v1 (distribution_percentage e (v0 + v1 + v2 + v3)) = Some w1 \<and>
           share v2 (distribution_percentage e (v0 + v1 + v2 + v3)) = Some w2 \<and>
           share v3 (distribution_percentage e (v0 + v1 + v2 + v3)) = Some w3 \<and>
           0 \<le> w0 \<and> w0 \<le> 16777216 \<and> 0 \<le> w1 \<and> w1 \<le> 16777216 \<and>
           0 \<le> w2 \<and> w2 \<le> 16777216 \<and> 0 \<le> w3 \<and> w3 \<le> 16777216 \<and>
           v0 + v1 + v2 + v3 - e \<le> w0 + w1 + w2 + w3"
proof -
  let ?T = "v0 + v1 + v2 + v3"
  have "e \<le> 16777216" "?T \<le> 67108864" using e(2) v by simp_all
  from percentage_upper [OF e(1) this(1) e(3) this(2)] obtain p where
    p: "distribution_percentage e ?T = Fin p" "1 / 2 ^ 126 \<le> p" "p \<le> 1"
      "p * (of_int ?T * (1 - 1 / 16777216)) \<le> of_int e * (1 + 1 / 16777216)"
    by blast
  from share_upper [OF v(1,2) p(2,3)] obtain w0 where
    w0: "share v0 (Fin p) = Some w0" "0 \<le> w0" "w0 \<le> 16777216"
      "of_int (v0 - w0) \<le> of_int v0 * p * (1 + 1 / 16777216)" by blast
  from share_upper [OF v(3,4) p(2,3)] obtain w1 where
    w1: "share v1 (Fin p) = Some w1" "0 \<le> w1" "w1 \<le> 16777216"
      "of_int (v1 - w1) \<le> of_int v1 * p * (1 + 1 / 16777216)" by blast
  from share_upper [OF v(5,6) p(2,3)] obtain w2 where
    w2: "share v2 (Fin p) = Some w2" "0 \<le> w2" "w2 \<le> 16777216"
      "of_int (v2 - w2) \<le> of_int v2 * p * (1 + 1 / 16777216)" by blast
  from share_upper [OF v(7,8) p(2,3)] obtain w3 where
    w3: "share v3 (Fin p) = Some w3" "0 \<le> w3" "w3 \<le> 16777216"
      "of_int (v3 - w3) \<le> of_int v3 * p * (1 + 1 / 16777216)" by blast
  define S where "S = (v0 - w0) + (v1 - w1) + (v2 - w2) + (v3 - w3)"
  define X where "X = p * rat_of_int ?T"
  have "rat_of_int S \<le> (of_int v0 * p + of_int v1 * p + of_int v2 * p + of_int v3 * p)
      * (1 + 1 / 16777216)"
    unfolding S_def using w0(4) w1(4) w2(4) w3(4) by (simp add: algebra_simps)
  also have "of_int v0 * p + of_int v1 * p + of_int v2 * p + of_int v3 * p = X"
    unfolding X_def by (simp add: algebra_simps)
  finally have 1: "rat_of_int S \<le> X * (1 + 1 / 16777216)" .
  have 2: "X * (1 - 1 / 16777216) \<le> of_int e * (1 + 1 / 16777216)"
    using p(4) unfolding X_def by (simp add: algebra_simps)
  have 3: "rat_of_int e \<le> 4194304" using e(2) by simp
  have "rat_of_int S < of_int e + 1" using 1 2 3 by simp
  then have "S < e + 1" by (simp flip: of_int_less_iff)
  then have "?T - e \<le> w0 + w1 + w2 + w3" unfolding S_def by simp
  with p(1) w0 w1 w2 w3 show ?thesis by auto
qed

lemma ng_loop_lower:
  assumes "0 \<le> v0" "v0 \<le> 16777216" "0 \<le> v1" "v1 \<le> 16777216"
      "0 \<le> v2" "v2 \<le> 16777216" "0 \<le> v3" "v3 \<le> 16777216"
    and "0 < e" "e \<le> 4194304" "i \<le> MAX_YEARS"
  shows "\<exists>k. ng_loop i e v0 v1 v2 v3 = Some k \<and> k \<le> MAX_YEARS \<and>
           min (int i + (v0 + v1 + v2 + v3) div e) (int MAX_YEARS) \<le> int k"
  using assms
proof (induction i e v0 v1 v2 v3 rule: ng_loop.induct)
  case (1 i e v0 v1 v2 v3)
  let ?T = "v0 + v1 + v2 + v3"
  show ?case
  proof (cases "i < MAX_YEARS")
    case False
    then have "ng_loop i e v0 v1 v2 v3 = Some i" by (simp add: ng_loop.simps [of i])
    moreover have "i = MAX_YEARS" using False "1.prems"(11) by simp
    ultimately show ?thesis by simp
  next
    case i: True
    show ?thesis
    proof (cases "e > ?T")
      case True
      have "0 \<le> ?T" using "1.prems" by simp
      then have "?T div e = 0" using True by simp
      then show ?thesis using i True by (simp add: ng_loop.simps [of i])
    next
      case False
      then have le: "e \<le> ?T" by simp
      from shares_cover [OF "1.prems"(1-10) le] obtain w0 w1 w2 w3 where
        w: "share v0 (distribution_percentage e ?T) = Some w0"
          "share v1 (distribution_percentage e ?T) = Some w1"
          "share v2 (distribution_percentage e ?T) = Some w2"
          "share v3 (distribution_percentage e ?T) = Some w3"
        and r: "0 \<le> w0" "w0 \<le> 16777216" "0 \<le> w1" "w1 \<le> 16777216"
          "0 \<le> w2" "w2 \<le> 16777216" "0 \<le> w3" "w3 \<le> 16777216"
        and s: "?T - e \<le> w0 + w1 + w2 + w3"
        by blast
      have "i + 1 \<le> MAX_YEARS" using i by simp
      from "1.IH" [OF i False w r "1.prems"(9,10) this] obtain k where
        k: "ng_loop (i + 1) e w0 w1 w2 w3 = Some k" "k \<le> MAX_YEARS"
          "min (int (i + 1) + (w0 + w1 + w2 + w3) div e) (int MAX_YEARS) \<le> int k"
        by blast
      have "(?T - e) div e \<le> (w0 + w1 + w2 + w3) div e"
        using s "1.prems"(9) by (intro zdiv_mono1) simp_all
      moreover have "(?T - e) div e = ?T div e - 1"
        using "1.prems"(9) div_add_self2 [of e "?T - e"] by simp
      ultimately have "int i + ?T div e \<le> int (i + 1) + (w0 + w1 + w2 + w3) div e" by simp
      with k(3) have "min (int i + ?T div e) (int MAX_YEARS) \<le> int k" by simp
      moreover have "ng_loop i e v0 v1 v2 v3 = Some k"
        using i False w k(1) by (simp add: ng_loop.simps [of i])
      ultimately show ?thesis using k(2) by blast
    qed
  qed
qed

lemma rnd24_lower_pos:
  assumes "0 \<le> x" and "x = 0 \<or> 1 / 2 ^ 126 \<le> x"
  shows "x * (1 - 1 / 16777216) \<le> rnd 24 (- 126) x"
proof (cases "x = 0")
  case True
  then show ?thesis by (simp add: rnd_zero)
next
  case False
  with assms have "2 powi (- 126) \<le> x" by (simp add: pow2_numeral)
  from rnd_relative [OF this, of 24] have "\<bar>rnd 24 (- 126) x - x\<bar> \<le> x / 16777216" by simp
  then have "rnd 24 (- 126) x - x \<le> x / 16777216" "- (rnd 24 (- 126) x - x) \<le> x / 16777216"
    by (simp_all only: abs_le_iff)
  then show ?thesis by (simp add: algebra_simps)
qed

lemma percentage_lower:
  assumes e: "0 < e" "e \<le> 16777216" and T: "e \<le> T" "T \<le> 67108864"
    and p: "distribution_percentage e T = Fin p"
  shows "of_int e * (1 - 1 / 16777216) \<le> p * (of_int T * (1 + 1 / 16777216))"
proof -
  define Tf where "Tf = rnd 24 (- 126) (of_int T)"
  have ie: "i2f e = Fin (of_int e)" using e by (intro i2f_exact) simp
  have re: "rnd 24 (- 126) (of_int e) = of_int e" using e by (intro rnd_of_int) simp_all
  have T1: "(1::rat) \<le> of_int T" using e(1) T(1) by simp
  then have "(0::rat) \<le> of_int T" "rat_of_int T = 0 \<or> 1 / 2 ^ 126 \<le> rat_of_int T" by simp_all
  then have up: "Tf \<le> of_int T * (1 + 1 / 16777216)" unfolding Tf_def by (rule rnd24_upper)
  have "rnd 24 (- 126) (of_int T) \<le> rnd 24 (- 126) 67108864"
    using T(2) by (intro rnd_mono) simp_all
  also have "\<dots> = 67108864" by (simp add: feval)
  finally have hi: "Tf \<le> 67108864" unfolding Tf_def .
  have "rnd 24 (- 126) (of_int e) \<le> rnd 24 (- 126) (of_int T)"
    using T(1) by (intro rnd_mono) simp_all
  then have eT: "of_int e \<le> Tf" unfolding Tf_def re .
  have e1: "(1::rat) \<le> of_int e" using e(1) by simp
  with eT have Tpos: "0 < Tf" by simp
  have iT: "i2f T = Fin Tf"
    using hi Tpos by (simp add: i2f_def round32_def Tf_def [symmetric] overflow32_small)
  define q where "q = of_int e / Tf"
  have "1 / 67108864 \<le> 1 / Tf" using hi Tpos by (simp add: frac_le)
  also have "\<dots> \<le> q" unfolding q_def using e1 Tpos by (simp add: divide_right_mono)
  finally have q0: "1 / 67108864 \<le> q" .
  have "round32 q = Fin p"
    using p Tpos by (simp add: distribution_percentage_def ie iT q_def)
  then have "p = rnd 24 (- 126) q" by (rule round32_rnd)
  moreover have "0 \<le> q" "q = 0 \<or> 1 / 2 ^ 126 \<le> q" using q0 by simp_all
  ultimately have pq: "q * (1 - 1 / 16777216) \<le> p" using rnd24_lower_pos by simp
  then have p0: "0 \<le> p" using q0 by (simp add: order_trans [rotated])
  have "of_int e * (1 - 1 / 16777216) = q * (1 - 1 / 16777216) * Tf"
    using Tpos by (simp add: q_def)
  also have "\<dots> \<le> p * Tf" using pq Tpos by (intro mult_right_mono) simp_all
  also have "\<dots> \<le> p * (of_int T * (1 + 1 / 16777216))"
    using up p0 by (intro mult_left_mono)
  finally show ?thesis .
qed

lemma withdrawal_lower:
  assumes v: "0 \<le> v" "v \<le> 16777216" and p: "1 / 2 ^ 126 \<le> p" "p \<le> 1"
    and d: "f2l (fmul (i2f v) (Fin p)) = Some d"
  shows "of_int v * p * (1 - 1 / 16777216) - 1 < of_int d"
proof -
  have p0: "0 \<le> p" using p(1) by simp
  have e: "i2f v = Fin (of_int v)" using v by (intro i2f_exact) simp
  have rv: "rnd 24 (- 126) (of_int v) = of_int v" using v by (intro rnd_of_int) simp_all
  have bot: "rnd 24 (- 126) 0 = 0" by (simp add: feval)
  have x: "0 \<le> rat_of_int v * p" "rat_of_int v * p \<le> of_int v"
    using v p0 p(2) by (simp_all add: mult_left_le)
  from round32_between [OF this bot rv] v obtain y where
    y: "round32 (of_int v * p) = Fin y" "0 \<le> y" "y \<le> of_int v"
    by auto
  have "of_int v * p = 0 \<or> 1 / 2 ^ 126 \<le> of_int v * p"
  proof (cases "v = 0")
    case True
    then show ?thesis by simp
  next
    case False
    with v(1) have "(1::rat) \<le> of_int v" by simp
    then have "1 * p \<le> of_int v * p" using p0 by (intro mult_right_mono)
    then have "p \<le> of_int v * p" by (simp only: mult_1)
    from order_trans [OF p(1) this] show ?thesis ..
  qed
  with rnd24_lower_pos [OF x(1)] round32_rnd [OF y(1)]
  have lo: "of_int v * p * (1 - 1 / 16777216) \<le> y" by simp
  have "y < 9223372036854775808" using y(3) v(2) by simp
  moreover have "0 \<le> \<lfloor>y\<rfloor>" using y(2) by simp
  ultimately have "f2l (fmul (i2f v) (Fin p)) = Some \<lfloor>y\<rfloor>"
    using y(2) by (simp add: e y(1) f2l_def trunc_def)
  with d have "d = \<lfloor>y\<rfloor>" by simp
  moreover have "y - 1 < of_int \<lfloor>y\<rfloor>" by linarith
  ultimately show ?thesis using lo by linarith
qed

lemma share_lower:
  assumes v: "0 \<le> v" "v \<le> 16777216" and p: "1 / 2 ^ 126 \<le> p" "p \<le> 1"
    and w: "share v (Fin p) = Some w"
  shows "of_int v * p * (1 - 1 / 16777216) - 1 < of_int (v - w)"
proof -
  from w obtain d where d: "f2l (fmul (i2f v) (Fin p)) = Some d" and "w = v - d"
    by (auto simp add: share_def split: option.splits if_splits)
  then have "v - w = d" by simp
  with withdrawal_lower [OF v p d] show ?thesis by simp
qed

lemma shares_leave:
  assumes v: "0 \<le> v0" "v0 \<le> 16777216" "0 \<le> v1" "v1 \<le> 16777216"
      "0 \<le> v2" "v2 \<le> 16777216" "0 \<le> v3" "v3 \<le> 16777216"
    and e: "0 < e" "e \<le> 4194304" "e \<le> v0 + v1 + v2 + v3"
    and w: "share v0 (distribution_percentage e (v0 + v1 + v2 + v3)) = Some w0"
      "share v1 (distribution_percentage e (v0 + v1 + v2 + v3)) = Some w1"
      "share v2 (distribution_percentage e (v0 + v1 + v2 + v3)) = Some w2"
      "share v3 (distribution_percentage e (v0 + v1 + v2 + v3)) = Some w3"
  shows "w0 + w1 + w2 + w3 \<le> v0 + v1 + v2 + v3 - e + 4"
proof -
  let ?T = "v0 + v1 + v2 + v3"
  have b: "e \<le> 16777216" "?T \<le> 67108864" using e(2) v by simp_all
  from percentage_upper [OF e(1) b(1) e(3) b(2)] obtain p where
    p: "distribution_percentage e ?T = Fin p" "1 / 2 ^ 126 \<le> p" "p \<le> 1"
    by blast
  note pl = percentage_lower [OF e(1) b(1) e(3) b(2) p(1)]
  note l0 = share_lower [OF v(1,2) p(2,3) w(1) [unfolded p(1)]]
    and l1 = share_lower [OF v(3,4) p(2,3) w(2) [unfolded p(1)]]
    and l2 = share_lower [OF v(5,6) p(2,3) w(3) [unfolded p(1)]]
    and l3 = share_lower [OF v(7,8) p(2,3) w(4) [unfolded p(1)]]
  define S where "S = (v0 - w0) + (v1 - w1) + (v2 - w2) + (v3 - w3)"
  define X where "X = p * rat_of_int ?T"
  define b0 where "b0 = of_int v0 * p * (1 - 1 / 16777216)"
  define b1 where "b1 = of_int v1 * p * (1 - 1 / 16777216)"
  define b2 where "b2 = of_int v2 * p * (1 - 1 / 16777216)"
  define b3 where "b3 = of_int v3 * p * (1 - 1 / 16777216)"
  have "b0 - 1 < of_int (v0 - w0)" "b1 - 1 < of_int (v1 - w1)" "b2 - 1 < of_int (v2 - w2)"
      "b3 - 1 < of_int (v3 - w3)"
    unfolding b0_def b1_def b2_def b3_def by (rule l0 l1 l2 l3)+
  then have "b0 + b1 + b2 + b3 - 4 < rat_of_int S" unfolding S_def by simp
  also have "b0 + b1 + b2 + b3 = X * (1 - 1 / 16777216)"
    unfolding b0_def b1_def b2_def b3_def X_def by (simp add: algebra_simps)
  finally have 1: "X * (1 - 1 / 16777216) - 4 < rat_of_int S" .
  have 2: "of_int e * (1 - 1 / 16777216) \<le> X * (1 + 1 / 16777216)"
    using pl unfolding X_def by (simp add: algebra_simps)
  have 3: "rat_of_int e \<le> 4194304" using e(2) by simp
  have "rat_of_int e - 5 < of_int S" using 1 2 3 by simp
  then have "e - 5 < S" by (simp flip: of_int_less_iff)
  then show ?thesis unfolding S_def by simp
qed

lemma ng_loop_upper:
  assumes "0 \<le> v0" "v0 \<le> 16777216" "0 \<le> v1" "v1 \<le> 16777216"
      "0 \<le> v2" "v2 \<le> 16777216" "0 \<le> v3" "v3 \<le> 16777216"
    and "4 < e" "e \<le> 4194304"
    and "ng_loop i e v0 v1 v2 v3 = Some k"
  shows "int k \<le> (if v0 + v1 + v2 + v3 < e then int i
                   else max (int i) (int i + (v0 + v1 + v2 + v3 - 4) div (e - 4)))"
  using assms
proof (induction i e v0 v1 v2 v3 rule: ng_loop.induct)
  case (1 i e v0 v1 v2 v3)
  let ?T = "v0 + v1 + v2 + v3"
  show ?case
  proof (cases "i < MAX_YEARS")
    case False
    then have "k = i" using "1.prems"(11) by (simp add: ng_loop.simps [of i])
    then show ?thesis by simp
  next
    case i: True
    show ?thesis
    proof (cases "e > ?T")
      case True
      then have "k = i" using i "1.prems"(11) by (simp add: ng_loop.simps [of i])
      then show ?thesis by simp
    next
      case False
      then have le: "e \<le> ?T" by simp
      have e0: "0 < e" using "1.prems"(9) by simp
      from "1.prems"(11) i False obtain w0 w1 w2 w3 where
        w: "share v0 (distribution_percentage e ?T) = Some w0"
          "share v1 (distribution_percentage e ?T) = Some w1"
          "share v2 (distribution_percentage e ?T) = Some w2"
          "share v3 (distribution_percentage e ?T) = Some w3"
        and k: "ng_loop (i + 1) e w0 w1 w2 w3 = Some k"
        by (auto simp add: ng_loop.simps [of i] split: option.splits)
      from shares_cover [OF "1.prems"(1-8) e0 "1.prems"(10) le] w have
        r: "0 \<le> w0" "w0 \<le> 16777216" "0 \<le> w1" "w1 \<le> 16777216"
          "0 \<le> w2" "w2 \<le> 16777216" "0 \<le> w3" "w3 \<le> 16777216"
        by auto
      note s = shares_leave [OF "1.prems"(1-8) e0 "1.prems"(10) le w]
      note IH = "1.IH" [OF i False w r "1.prems"(9,10) k]
      have d: "(?T - 4) div (e - 4) = (?T - e) div (e - 4) + 1"
        using "1.prems"(9) div_add_self2 [of "e - 4" "?T - e"] by (simp add: algebra_simps)
      have nn: "0 \<le> (?T - e) div (e - 4)"
        using le "1.prems"(9) by (simp add: pos_imp_zdiv_nonneg_iff)
      have "int k \<le> int i + 1 + (?T - e) div (e - 4)"
      proof (cases "w0 + w1 + w2 + w3 < e")
        case True
        with IH nn show ?thesis by simp
      next
        case False
        have "(w0 + w1 + w2 + w3 - 4) div (e - 4) \<le> (?T - e) div (e - 4)"
          using s "1.prems"(9) by (intro zdiv_mono1) simp_all
        with IH False nn show ?thesis by simp
      qed
      with False d show ?thesis by simp
    qed
  qed
qed

subsection \<open>The distribution of a year\<close>

lemma i2f_range:
  assumes "0 \<le> m" and "m \<le> n" and "n < 9223372036854775808"
  shows "\<exists>x y. i2f m = Fin x \<and> i2f n = Fin y \<and> 0 \<le> x \<and> x \<le> y \<and> (0 < n \<longrightarrow> 1 \<le> y)"
proof -
  have top: "rnd 24 (- 126) 9223372036854775808 = 9223372036854775808"
    by (simp add: feval)
  have bot: "rnd 24 (- 126) 0 = 0" "rnd 24 (- 126) 1 = 1" by (simp_all add: feval)
  have "(0::rat) \<le> of_int m" "rat_of_int m \<le> 9223372036854775808" using assms by simp_all
  from round32_between [OF this bot(1) top] obtain x where
    x: "i2f m = Fin x" "0 \<le> x" by (auto simp add: i2f_def)
  have "(0::rat) \<le> of_int n" "rat_of_int n \<le> 9223372036854775808" using assms by simp_all
  from round32_between [OF this bot(1) top] obtain y where
    y: "i2f n = Fin y" "0 \<le> y" by (auto simp add: i2f_def)
  have "rnd 24 (- 126) (of_int m) \<le> rnd 24 (- 126) (of_int n)"
    using assms(2) by (intro rnd_mono) simp_all
  moreover have "overflow32 (rnd 24 (- 126) (of_int m)) = Fin x"
      "overflow32 (rnd 24 (- 126) (of_int n)) = Fin y"
    using x(1) y(1) by (simp_all add: i2f_def round32_def)
  then have "x = rnd 24 (- 126) (of_int m)" "y = rnd 24 (- 126) (of_int n)"
    by (auto simp add: overflow32_def split: if_splits)
  ultimately have le: "x \<le> y" by simp
  have "1 \<le> y" if "0 < n"
  proof -
    have "(1::rat) \<le> of_int n" using that by simp
    then have "rnd 24 (- 126) 1 \<le> rnd 24 (- 126) (of_int n)" by (intro rnd_mono) simp_all
    then show ?thesis
      using \<open>y = rnd 24 (- 126) (of_int n)\<close> by (simp add: bot(2))
  qed
  with x y le show ?thesis by blast
qed

lemma distribution_percentage_range:
  assumes "0 \<le> net" and "net \<le> dtotal" and "0 < dtotal" and "dtotal < 9223372036854775808"
  shows "\<exists>p. distribution_percentage net dtotal = Fin p \<and> 0 \<le> p \<and> p \<le> 1"
proof -
  from i2f_range [OF assms(1,2,4)] assms(3) obtain x y where
    xy: "i2f net = Fin x" "i2f dtotal = Fin y" "0 \<le> x" "x \<le> y" "1 \<le> y"
    by blast
  have bot: "rnd 24 (- 126) 0 = 0" "rnd 24 (- 126) 1 = 1" by (simp_all add: feval)
  have "0 \<le> x / y" "x / y \<le> 1" using xy(3,4,5) by simp_all
  from round32_between [OF this bot] obtain p where "round32 (x / y) = Fin p" "0 \<le> p" "p \<le> 1"
    by auto
  then show ?thesis using xy(5) by (auto simp add: distribution_percentage_def xy(1,2))
qed

lemma withdrawal_bounds:
  assumes v: "0 \<le> v" "v \<le> 16777216" and p: "0 \<le> p" "p \<le> 1"
  shows "\<exists>d. f2l (fmul (i2f v) (Fin p)) = Some d \<and> 0 \<le> d \<and> d \<le> v"
proof -
  have e: "i2f v = Fin (of_int v)" using v by (intro i2f_exact) simp
  have rv: "rnd 24 (- 126) (of_int v) = of_int v" using v by (intro rnd_of_int) simp_all
  have bot: "rnd 24 (- 126) 0 = 0" by (simp add: feval)
  have "0 \<le> rat_of_int v * p" "rat_of_int v * p \<le> of_int v"
    using v p by (simp_all add: mult_left_le)
  from round32_between [OF this bot rv] v obtain y where
    y: "round32 (of_int v * p) = Fin y" "0 \<le> y" "y \<le> of_int v"
    by auto
  have "0 \<le> \<lfloor>y\<rfloor>" "\<lfloor>y\<rfloor> \<le> v" using y(2,3) by (simp_all add: floor_le_iff le_floor_iff)
  moreover have "y < 9223372036854775808" using y(3) v(2) by simp
  ultimately show ?thesis using y(2) by (simp add: e y(1) f2l_def trunc_def)
qed

lemma distribute_account_distribution:
  assumes "distribute_account i pct c s = Some s'"
  shows "if availability' s c i
         then f2l (fmul (i2f (value' s c i)) pct) = Some (distribution' s' c i)
         else distribution' s' c i = 0"
  using assms
  by (simp add: distribute_account_def Let_def split: option.splits if_splits)
    (auto simp add: upd2_def)

lemma distribute_account_now:
  assumes "distribute_account i pct c s = Some s'"
  shows "value' s' c' i = value' s c' i" and "availability' s' = availability' s"
    and "c' \<noteq> c \<Longrightarrow> distribution' s' c' i = distribution' s c' i"
  using assms
  by (auto simp add: distribute_account_def Let_def upd2_def split: option.splits if_splits)

lemma distribute_all_distribution:
  assumes all: "distribute_all i pct s = Some s'" and c: "c < MAX_ACCOUNTS"
  shows "if availability' s c i
         then f2l (fmul (i2f (value' s c i)) pct) = Some (distribution' s' c i)
         else distribution' s' c i = 0"
proof -
  from all obtain t0 t1 t2 where
    t0: "distribute_account i pct 0 s = Some t0" and t1: "distribute_account i pct 1 t0 = Some t1"
    and t2: "distribute_account i pct 2 t1 = Some t2" and t3: "distribute_account i pct 3 t2 = Some s'"
    by (auto simp add: distribute_all_unfold split: option.splits)
  note n0 = distribute_account_now [OF t0] and n1 = distribute_account_now [OF t1]
    and n2 = distribute_account_now [OF t2] and n3 = distribute_account_now [OF t3]
  note d0 = distribute_account_distribution [OF t0] and d1 = distribute_account_distribution [OF t1]
    and d2 = distribute_account_distribution [OF t2] and d3 = distribute_account_distribution [OF t3]
  from accounts_cases [OF c] consider "c = 0" | "c = 1" | "c = 2" | "c = 3" by blast
  then show ?thesis
  proof cases
    case 1
    have "distribution' s' 0 i = distribution' t0 0 i"
      by (simp add: n3(3) n2(3) n1(3))
    then show ?thesis using d0 1 by (simp split: if_splits)
  next
    case 2
    have "distribution' s' 1 i = distribution' t1 1 i"
      by (simp add: n3(3) n2(3))
    then show ?thesis using d1 2 by (simp add: n0(1,2) split: if_splits)
  next
    case 3
    have "distribution' s' 2 i = distribution' t2 2 i"
      by (simp add: n3(3))
    then show ?thesis using d2 3 by (simp add: n0(1,2) n1(1,2) split: if_splits)
  next
    case 4
    then show ?thesis using d3 by (simp add: n0(1,2) n1(1,2) n2(1,2) split: if_splits)
  qed
qed

section \<open>Properties of the growth curves\<close>

lemma STOCK_GROWTH_AVG_value: "STOCK_GROWTH_AVG = Fin (15166603 / 134217728)"
  by (simp add: STOCK_GROWTH_AVG_def feval)

lemma guessed_stock_ratio_range:
  assumes "0 \<le> a"
  shows "\<exists>r. guessed_stock_ratio (Fin a) = Fin r \<and> 0 \<le> r \<and> r \<le> 1"
proof -
  let ?y = "rnd 24 (- 126) (a / (15166603 / 134217728))"
  have y: "0 \<le> ?y" using assms by (intro rnd_nonneg) simp
  have d: "fdiv (Fin a) STOCK_GROWTH_AVG = overflow32 ?y"
    by (simp add: STOCK_GROWTH_AVG_value round32_def)
  show ?thesis
  proof (cases "?y \<le> 1")
    case True
    then have "overflow32 ?y = Fin ?y" using y by (simp add: overflow32_def)
    with True y show ?thesis by (auto simp add: guessed_stock_ratio_def d fle_def)
  next
    case False
    then have "\<not> fle (overflow32 ?y) (Fin 1)"
      using overflow32_cases [of ?y] y by (auto simp add: fle_def overflow32_def split: if_splits)
    then show ?thesis by (simp add: guessed_stock_ratio_def d)
  qed
qed

text \<open>The iterations over the years that fill one row of the growth-rate array.\<close>

lemma foldl_growthRate_row:
  "foldl (\<lambda>s' n. s'\<lparr>growthRate' := upd2 (growthRate' s') c n (f n)\<rparr>) s [0..<k] =
     s\<lparr>growthRate' := (\<lambda>c' n. if c' = c \<and> n < k then f n else growthRate' s c' n)\<rparr>"
proof (induction k)
  case 0
  then show ?case by simp
next
  case (Suc k)
  have "(\<lambda>c' n. if c' = c \<and> n < Suc k then f n else growthRate' s c' n) =
      upd2 (\<lambda>c' n. if c' = c \<and> n < k then f n else growthRate' s c' n) c k (f k)"
    by (auto simp add: upd2_def fun_eq_iff less_Suc_eq)
  then show ?case by (simp add: Suc.IH)
qed

lemma scale_account_eq:
  "scale_account g s c =
     s\<lparr>growthRate' := (\<lambda>c' n. if c' = c \<and> n < MAX_YEARS
          then fmul (g n) (guessed_stock_ratio (growthRateAvg' s c)) else growthRate' s c' n)\<rparr>"
  unfolding scale_account_def by (rule foldl_growthRate_row)

lemma constant_account_eq:
  "constant_account s c =
     s\<lparr>growthRate' := (\<lambda>c' n. if c' = c \<and> n < MAX_YEARS
          then growthRateAvg' s c else growthRate' s c' n)\<rparr>"
proof -
  have "\<And>k. foldl (\<lambda>s' n. s'\<lparr>growthRate' := upd2 (growthRate' s') c n (growthRateAvg' s' c)\<rparr>) s [0..<k]
      = foldl (\<lambda>s' n. s'\<lparr>growthRate' := upd2 (growthRate' s') c n (growthRateAvg' s c)\<rparr>) s [0..<k]"
  proof -
    fix k
    show "foldl (\<lambda>s' n. s'\<lparr>growthRate' := upd2 (growthRate' s') c n (growthRateAvg' s' c)\<rparr>) s [0..<k]
      = foldl (\<lambda>s' n. s'\<lparr>growthRate' := upd2 (growthRate' s') c n (growthRateAvg' s c)\<rparr>) s [0..<k]"
      by (induction k) (simp_all add: foldl_growthRate_row)
  qed
  then show ?thesis unfolding constant_account_def by (simp add: foldl_growthRate_row)
qed

lemma scale_all:
  "growthRate' (foldl (scale_account g) s [0..<MAX_ACCOUNTS]) c n =
     (if c < MAX_ACCOUNTS \<and> n < MAX_YEARS
      then fmul (g n) (guessed_stock_ratio (growthRateAvg' s c)) else growthRate' s c n)"
  "(foldl (scale_account g) s [0..<MAX_ACCOUNTS])\<lparr>growthRate' := growthRate' s\<rparr> = s"
proof -
  show "(foldl (scale_account g) s [0..<MAX_ACCOUNTS])\<lparr>growthRate' := growthRate' s\<rparr> = s"
    by (simp add: accounts_upt scale_account_eq)
  consider "c = 0" | "c = 1" | "c = 2" | "c = 3" | "\<not> c < MAX_ACCOUNTS"
    using accounts_cases [of c] by blast
  then show "growthRate' (foldl (scale_account g) s [0..<MAX_ACCOUNTS]) c n =
     (if c < MAX_ACCOUNTS \<and> n < MAX_YEARS
      then fmul (g n) (guessed_stock_ratio (growthRateAvg' s c)) else growthRate' s c n)"
    by cases (simp_all add: accounts_upt [unfolded MAX_ACCOUNTS_def] scale_account_eq MAX_ACCOUNTS_def)
qed

lemma constant_all:
  "growthRate' (foldl constant_account s [0..<MAX_ACCOUNTS]) c n =
     (if c < MAX_ACCOUNTS \<and> n < MAX_YEARS then growthRateAvg' s c else growthRate' s c n)"
  "(foldl constant_account s [0..<MAX_ACCOUNTS])\<lparr>growthRate' := growthRate' s\<rparr> = s"
proof -
  show "(foldl constant_account s [0..<MAX_ACCOUNTS])\<lparr>growthRate' := growthRate' s\<rparr> = s"
    by (simp add: accounts_upt constant_account_eq)
  consider "c = 0" | "c = 1" | "c = 2" | "c = 3" | "\<not> c < MAX_ACCOUNTS"
    using accounts_cases [of c] by blast
  then show "growthRate' (foldl constant_account s [0..<MAX_ACCOUNTS]) c n =
     (if c < MAX_ACCOUNTS \<and> n < MAX_YEARS then growthRateAvg' s c else growthRate' s c n)"
    by cases (simp_all add: accounts_upt [unfolded MAX_ACCOUNTS_def] constant_account_eq MAX_ACCOUNTS_def)
qed

lemma populateGrowthCurves_scaled:
  assumes "option \<noteq> CONSTANT"
  shows "growthRate' (fst (populateGrowthCurves draws option s)) c n =
     (if c < MAX_ACCOUNTS \<and> n < MAX_YEARS
      then fmul (common_curve draws option n) (guessed_stock_ratio (growthRateAvg' s c))
      else growthRate' s c n)"
    and "(fst (populateGrowthCurves draws option s))\<lparr>growthRate' := growthRate' s\<rparr> = s"
  using assms by (simp_all add: populateGrowthCurves_def Let_def scale_all)

lemma populateGrowthCurves_constant:
  "growthRate' (fst (populateGrowthCurves draws CONSTANT s)) c n =
     (if c < MAX_ACCOUNTS \<and> n < MAX_YEARS then growthRateAvg' s c else growthRate' s c n)"
  "(fst (populateGrowthCurves draws CONSTANT s))\<lparr>growthRate' := growthRate' s\<rparr> = s"
  by (simp_all add: populateGrowthCurves_def Let_def constant_all)

lemma foldl_fun_upd_upt:
  "foldl (\<lambda>g n. g(n := f n)) g [0..<k] m = (if m < k then f m else g m)"
  by (induction k) (auto simp add: less_Suc_eq)

lemma scenarioPredefinedYear0Loss_apply:
  "scenarioPredefinedYear0Loss g n = (if n < MAX_YEARS then RECESSION_YEAR0_LOSS n else g n)"
  by (simp add: scenarioPredefinedYear0Loss_def foldl_fun_upd_upt)

subsection \<open>The randomized scenario\<close>

lemma recession_constants:
  "RECESSION_MIN = Fin (- (7549747 / 16777216))"
  "RECESSION_MAX = Fin (- (5033165 / 33554432))"
  "fsub RECESSION_MAX RECESSION_MIN = Fin (10066329 / 33554432)"
  by (simp_all add: RECESSION_MIN_def RECESSION_MAX_def feval)

lemma recession_roundings:
  "rnd 24 (- 126) 0 = 0" "rnd 24 (- 126) 1 = 1"
  "rnd 24 (- 126) (10066329 / 33554432) = 10066329 / 33554432"
  "rnd 24 (- 126) (- (7549747 / 16777216)) = - (7549747 / 16777216)"
  "rnd 24 (- 126) (- (7549747 / 16777216) + 10066329 / 33554432) = - (5033165 / 33554432)"
  by (simp_all add: feval)

lemma recession_rate_bounds:
  assumes "1 \<le> d" and "d \<le> 100"
  shows "\<exists>x. recession_rate d = Fin x \<and> - (7549747 / 16777216) \<le> x \<and> x \<le> - (5033165 / 33554432)"
proof -
  have d: "i2f (int d) = Fin (of_nat d)"
    using i2f_exact [of "int d"] assms by simp
  have h: "i2f (int RANDOM_NUM_MAX) = Fin 100"
    using i2f_exact [of 100] by (simp add: RANDOM_NUM_MAX_def)
  have "0 \<le> rat_of_nat d / 100" "rat_of_nat d / 100 \<le> 1" using assms by simp_all
  from round32_between [OF this recession_roundings(1,2)]
  obtain t where t: "fdiv (i2f (int d)) (i2f (int RANDOM_NUM_MAX)) = Fin t" "0 \<le> t" "t \<le> 1"
    by (auto simp add: d h)
  have "0 \<le> t * (10066329 / 33554432)" "t * (10066329 / 33554432) \<le> 10066329 / 33554432"
    using t(2,3) by simp_all
  from round32_between [OF this recession_roundings(1,3)]
  obtain u where u: "fmul (Fin t) (Fin (10066329 / 33554432)) = Fin u" "0 \<le> u"
      "u \<le> 10066329 / 33554432"
    by auto
  have "- (7549747 / 16777216) \<le> - (7549747 / 16777216) + u"
    "- (7549747 / 16777216) + u \<le> - (7549747 / 16777216) + 10066329 / 33554432"
    using u(2,3) by simp_all
  from round32_between [OF this recession_roundings(4,5)]
  obtain x where "fadd (Fin (- (7549747 / 16777216))) (Fin u) = Fin x"
      "- (7549747 / 16777216) \<le> x" "x \<le> - (5033165 / 33554432)"
    by auto
  moreover have "recession_rate d = fadd (Fin (- (7549747 / 16777216))) (Fin u)"
    by (simp only: recession_rate_def recession_constants(3) t(1) u(1))
      (simp only: recession_constants(1))
  ultimately show ?thesis by simp
qed

lemma recession_loop_below:
  "m < n \<Longrightarrow> fst (recession_loop draws n g rr k) m = g m"
proof (induction draws n g rr k rule: recession_loop.induct)
  case (1 draws n g rr k)
  show ?case
  proof (cases "n < MAX_YEARS")
    case False
    then show ?thesis by (simp add: recession_loop.simps [of draws n])
  next
    case True
    let ?ry = "RECOVERY_INT_MIN + draws (k + 1) mod (RECOVERY_INT_MAX - RECOVERY_INT_MIN)"
    show ?thesis
    proof (cases "n + ?ry \<ge> MAX_YEARS")
      case a: True
      with True "1.prems" show ?thesis by (simp add: recession_loop.simps [of draws n] Let_def)
    next
      case a: False
      show ?thesis
      proof (cases "n + ?ry + 1 \<ge> MAX_YEARS")
        case b: True
        with True a "1.prems" show ?thesis
          by (simp add: recession_loop.simps [of draws n] Let_def)
      next
        case b: False
        have "fst (recession_loop draws n g rr k) m =
            fst (recession_loop draws
              (n + ?ry + 1 + (RECESSION_INT_MIN + draws (k + 2) mod (RECESSION_INT_MAX - RECESSION_INT_MIN)))
              (g(n := recession_rate (draws k), n + ?ry := half_rebound (recession_rate (draws k)),
                 n + ?ry + 1 := half_rebound (recession_rate (draws k))))
              (rr + 3) (k + 3)) m"
          using True a b by (simp add: recession_loop.simps [of draws n] Let_def)
        also have "\<dots> = (g(n := recession_rate (draws k), n + ?ry := half_rebound (recession_rate (draws k)),
                 n + ?ry + 1 := half_rebound (recession_rate (draws k)))) m"
          using True a b "1.prems"
          by (intro "1.IH" [OF True refl refl refl _ refl refl _ refl refl refl]) simp_all
        also have "\<dots> = g m" using "1.prems" by simp
        finally show ?thesis .
      qed
    qed
  qed
qed


lemma recession_loop_start:
  assumes "n < MAX_YEARS"
  shows "fst (recession_loop draws n g rr k) n = recession_rate (draws k)"
proof -
  let ?ry = "RECOVERY_INT_MIN + draws (k + 1) mod (RECOVERY_INT_MAX - RECOVERY_INT_MIN)"
  let ?g3 = "g(n := recession_rate (draws k), n + ?ry := half_rebound (recession_rate (draws k)),
                 n + ?ry + 1 := half_rebound (recession_rate (draws k)))"
  have ry: "0 < ?ry" by (simp add: RECOVERY_INT_MIN_def)
  then have ne: "n + ?ry \<noteq> n" by simp
  consider "n + ?ry \<ge> MAX_YEARS" | "\<not> n + ?ry \<ge> MAX_YEARS" "n + ?ry + 1 \<ge> MAX_YEARS"
    | "\<not> n + ?ry \<ge> MAX_YEARS" "\<not> n + ?ry + 1 \<ge> MAX_YEARS"
    by blast
  then show ?thesis
  proof cases
    case 1
    with assms show ?thesis by (simp add: recession_loop.simps [of draws n] Let_def)
  next
    case 2
    with assms ne show ?thesis by (auto simp add: recession_loop.simps [of draws n] Let_def)
  next
    case 3
    have "fst (recession_loop draws n g rr k) n =
        fst (recession_loop draws
          (n + ?ry + 1 + (RECESSION_INT_MIN + draws (k + 2) mod (RECESSION_INT_MAX - RECESSION_INT_MIN)))
          ?g3 (rr + 3) (k + 3)) n"
      using assms 3 by (simp add: recession_loop.simps [of draws n] Let_def)
    also have "\<dots> = ?g3 n" by (rule recession_loop_below) simp
    also have "\<dots> = recession_rate (draws k)" using ne by auto
    finally show ?thesis .
  qed
qed

lemma fill_year_keeps:
  assumes "\<not> feq (g m) (i2f 0)"
  shows "fst (fill_year draws avg (g, k) n) m = g m"
  using assms by (cases "n = m") (simp_all add: fill_year_def)

lemma fill_years_keep:
  "\<not> feq (fst gk m) (i2f 0) \<Longrightarrow> fst (foldl (fill_year draws avg) gk ns) m = fst gk m"
proof (induction ns arbitrary: gk)
  case Nil
  then show ?case by simp
next
  case (Cons n ns)
  obtain g k where gk: "gk = (g, k)" by (cases gk)
  have keep: "fst (fill_year draws avg gk n) m = fst gk m"
    using Cons.prems unfolding gk by (simp add: fill_year_keeps)
  then have "\<not> feq (fst (fill_year draws avg gk n) m) (i2f 0)" using Cons.prems by simp
  from Cons.IH [OF this] keep show ?case by simp
qed

lemma scenarioRecessionRandomized_year0:
  assumes "1 \<le> draws 1" and "draws 1 \<le> 100"
  shows "scenarioRecessionRandomized draws growth_common 0 = recession_rate (draws 1)"
proof -
  let ?g0 = "foldl (\<lambda>g n. g(n := i2f 0)) growth_common [0..<MAX_YEARS]"
  obtain g rr k where loop: "recession_loop draws 0 ?g0 0 (Suc 0) = (g, rr, k)"
    by (cases "recession_loop draws 0 ?g0 0 (Suc 0)")
  have "0 < MAX_YEARS" by (simp add: MAX_YEARS_def)
  from recession_loop_start [OF this, of draws ?g0 0 "Suc 0"]
  have g0: "g 0 = recession_rate (draws 1)"
    unfolding loop by simp
  from recession_rate_bounds [OF assms] obtain x where
    x: "recession_rate (draws 1) = Fin x" "x \<le> - (5033165 / 33554432)"
    by blast
  have "\<not> feq (fst (g, k) 0) (i2f 0)" using x by (simp add: g0 i2f_0)
  from fill_years_keep [OF this] have "fst (foldl (fill_year draws (remaining_growth_avg rr)) (g, k)
      [0..<MAX_YEARS]) 0 = g 0"
    by simp
  then show ?thesis
    by (simp add: scenarioRecessionRandomized_def Let_def RECESSION_START_MOD_def loop g0)
qed

subsection \<open>Every value of the common curve is a binary32 number\<close>

lemma representable_zero: "representable (Fin 0)"
  by (simp add: representable_def rnd_zero)

lemma recession_loop_representable:
  "(\<forall>m. representable (g m)) \<Longrightarrow> representable (fst (recession_loop draws n g rr k) m)"
proof (induction draws n g rr k rule: recession_loop.induct)
  case (1 draws n g rr k)
  have rate: "representable (recession_rate (draws k))"
    by (simp add: recession_rate_def representable_ops)
  have half: "representable (half_rebound (recession_rate (draws k)))"
    by (simp add: half_rebound_def representable_ops)
  show ?case
  proof (cases "n < MAX_YEARS")
    case False
    then show ?thesis using "1.prems" by (simp add: recession_loop.simps [of draws n])
  next
    case True
    let ?ry = "RECOVERY_INT_MIN + draws (k + 1) mod (RECOVERY_INT_MAX - RECOVERY_INT_MIN)"
    let ?g3 = "g(n := recession_rate (draws k), n + ?ry := half_rebound (recession_rate (draws k)),
                 n + ?ry + 1 := half_rebound (recession_rate (draws k)))"
    consider "n + ?ry \<ge> MAX_YEARS" | "\<not> n + ?ry \<ge> MAX_YEARS" "n + ?ry + 1 \<ge> MAX_YEARS"
      | "\<not> n + ?ry \<ge> MAX_YEARS" "\<not> n + ?ry + 1 \<ge> MAX_YEARS"
      by blast
    then show ?thesis
    proof cases
      case 1
      with True "1.prems" rate show ?thesis
        by (simp add: recession_loop.simps [of draws n] Let_def)
    next
      case 2
      with True "1.prems" rate half show ?thesis
        by (simp add: recession_loop.simps [of draws n] Let_def)
    next
      case 3
      have g3: "\<forall>m. representable (?g3 m)" using "1.prems" rate half by simp
      have "fst (recession_loop draws n g rr k) m =
          fst (recession_loop draws
            (n + ?ry + 1 + (RECESSION_INT_MIN + draws (k + 2) mod (RECESSION_INT_MAX - RECESSION_INT_MIN)))
            ?g3 (rr + 3) (k + 3)) m"
        using True 3 by (simp add: recession_loop.simps [of draws n] Let_def)
      moreover have "representable (fst (recession_loop draws
            (n + ?ry + 1 + (RECESSION_INT_MIN + draws (k + 2) mod (RECESSION_INT_MAX - RECESSION_INT_MIN)))
            ?g3 (rr + 3) (k + 3)) m)"
        using True 3 g3
        by (intro "1.IH" [OF True refl refl refl _ refl refl _ refl refl refl]) simp_all
      ultimately show ?thesis by simp
    qed
  qed
qed

lemma fill_years_representable:
  "(\<forall>m. representable (fst gk m)) \<Longrightarrow> representable (fst (foldl (fill_year draws avg) gk ns) m)"
proof (induction ns arbitrary: gk)
  case Nil
  then show ?case by simp
next
  case (Cons n ns)
  obtain g k where gk: "gk = (g, k)" by (cases gk)
  have "\<forall>m. representable (fst (fill_year draws avg gk n) m)"
    using Cons.prems unfolding gk by (simp add: fill_year_def representable_ops)
  from Cons.IH [OF this] show ?case by simp
qed

lemma common_curve_representable: "representable (common_curve draws option n)"
proof -
  have p: "representable (scenarioPredefinedYear0Loss (\<lambda>n. Fin 0) n)"
    by (simp add: scenarioPredefinedYear0Loss_apply RECESSION_YEAR0_LOSS_def representable_ops
        representable_zero)
  let ?g0 = "foldl (\<lambda>g n. g(n := i2f 0)) (\<lambda>n. Fin 0) [0..<MAX_YEARS]"
  have g0: "\<forall>m. representable (?g0 m)"
    by (simp add: foldl_fun_upd_upt representable_ops representable_zero)
  obtain g rr k where
    loop: "recession_loop draws (draws 0 mod RECESSION_START_MOD) ?g0 0 (Suc 0) = (g, rr, k)"
    by (cases "recession_loop draws (draws 0 mod RECESSION_START_MOD) ?g0 0 (Suc 0)")
  have "\<forall>m. representable (g m)"
    using recession_loop_representable [OF g0, of draws "draws 0 mod RECESSION_START_MOD" 0 "Suc 0"]
    unfolding loop by simp
  then have "\<forall>m. representable (fst (g, k) m)" by simp
  from fill_years_representable [OF this]
  have r: "representable (scenarioRecessionRandomized draws (\<lambda>n. Fin 0) n)"
    by (simp add: scenarioRecessionRandomized_def Let_def loop)
  show ?thesis by (simp add: common_curve_def p r representable_zero)
qed

lemma asset_growthRate_eqI:
  assumes "t\<lparr>growthRate' := growthRate' s\<rparr> = s" and "growthRate' t = growthRate' s"
  shows "t = s"
proof -
  have "t = t\<lparr>growthRate' := growthRate' t\<rparr>" by simp
  also have "\<dots> = s" unfolding assms(2) by (rule assms(1))
  finally show ?thesis .
qed

lemma common_curve_unrecognized:
  "option \<noteq> PREDEFINED_YEAR0_LOSS \<Longrightarrow> option \<noteq> RECESSION_RANDOMIZED \<Longrightarrow>
     common_curve draws option n = Fin 0"
  by (simp add: common_curve_def)


subsection \<open>The object of the test ConstantNoGrowthModel\<close>

lemma no_growth_accounts_fields:
  "growthRate' (no_growth_accounts v e) c y = Fin 0"
  "inflation' (no_growth_accounts v e) y = Fin 0"
  "takehomeIncome' (no_growth_accounts v e) = 0"
  "contributionRoth' (no_growth_accounts v e) = 0"
  "contributionIra' (no_growth_accounts v e) = 0"
  "contributionR401k' (no_growth_accounts v e) = 0"
  "cashReserve' (no_growth_accounts v e) = 0"
  "availability' (no_growth_accounts v e) c y \<longleftrightarrow> c < MAX_ACCOUNTS \<and> y < MAX_YEARS"
  "value' (no_growth_accounts v e) c y = (if c < MAX_ACCOUNTS \<and> y = 0 then v else 0)"
  "expense' (no_growth_accounts v e) 0 = e"
proof -
  let ?s = "Asset\<lparr>expense' := (expense' Asset)(0 := e),
              value' := (\<lambda>c y. if c < MAX_ACCOUNTS \<and> y = 0 then v else 0),
              availability' := (\<lambda>c y. c < MAX_ACCOUNTS \<and> y < MAX_YEARS)\<rparr>"
  show "growthRate' (no_growth_accounts v e) c y = Fin 0"
    unfolding no_growth_accounts_def populateGrowthCurves_constant(1)
    by (simp add: Asset_def i2f_0)
  have e: "(no_growth_accounts v e)\<lparr>growthRate' := growthRate' ?s\<rparr> = ?s"
    unfolding no_growth_accounts_def by (rule populateGrowthCurves_constant(2))
  have "inflation' (no_growth_accounts v e) = inflation' ?s"
      "takehomeIncome' (no_growth_accounts v e) = takehomeIncome' ?s"
      "contributionRoth' (no_growth_accounts v e) = contributionRoth' ?s"
      "contributionIra' (no_growth_accounts v e) = contributionIra' ?s"
      "contributionR401k' (no_growth_accounts v e) = contributionR401k' ?s"
      "cashReserve' (no_growth_accounts v e) = cashReserve' ?s"
      "availability' (no_growth_accounts v e) = availability' ?s"
      "value' (no_growth_accounts v e) = value' ?s"
      "expense' (no_growth_accounts v e) = expense' ?s"
    using arg_cong [OF e, of inflation'] arg_cong [OF e, of takehomeIncome']
      arg_cong [OF e, of contributionRoth'] arg_cong [OF e, of contributionIra']
      arg_cong [OF e, of contributionR401k'] arg_cong [OF e, of cashReserve']
      arg_cong [OF e, of availability'] arg_cong [OF e, of value'] arg_cong [OF e, of expense']
    by simp_all
  then show "inflation' (no_growth_accounts v e) y = Fin 0"
    "takehomeIncome' (no_growth_accounts v e) = 0"
    "contributionRoth' (no_growth_accounts v e) = 0"
    "contributionIra' (no_growth_accounts v e) = 0"
    "contributionR401k' (no_growth_accounts v e) = 0"
    "cashReserve' (no_growth_accounts v e) = 0"
    "availability' (no_growth_accounts v e) c y \<longleftrightarrow> c < MAX_ACCOUNTS \<and> y < MAX_YEARS"
    "value' (no_growth_accounts v e) c y = (if c < MAX_ACCOUNTS \<and> y = 0 then v else 0)"
    "expense' (no_growth_accounts v e) 0 = e"
    by (simp_all add: Asset_def i2f_0)
qed

section \<open>The claims\<close>

subsection \<open>The cash reserve\<close>

text \<open>
  C5. addCashReserve succeeds exactly when the value of the source account in that year
  strictly exceeds the requested cash. On success the source cell shrinks by the cash
  (as long as the difference fits a \<^verbatim>\<open>long int\<close>), nothing but the reserve and that cell
  changes, and the reserve grows by exactly the cash provided that the sum fits a 32-bit
  \<^verbatim>\<open>int\<close>; on failure the result is \<open>False\<close> with the unchanged object. The function is
  total: it has no exceptional outcome. (When the sum does not fit, the reserve does not
  grow by the cash: the 32-bit addition overflows. Indices outside the arrays are
  undefined behaviour in C++ and are not distinguished by the model, where an array is a
  total function.)
\<close>

theorem addCashReserve_succeeds_iff:
  "(fst (addCashReserve cash a y s) \<longleftrightarrow> cash < value' s a y) \<and>
   (cash < value' s a y \<and> - 2147483648 \<le> cashReserve' s + cash \<and>
      cashReserve' s + cash \<le> 2147483647 \<longrightarrow>
      cashReserve' (snd (addCashReserve cash a y s)) = cashReserve' s + cash) \<and>
   (cash < value' s a y \<and> value' s a y - cash \<le> 9223372036854775807 \<longrightarrow>
      value' (snd (addCashReserve cash a y s)) a y = value' s a y - cash) \<and>
   (cash < value' s a y \<longrightarrow>
      (\<forall>c i. (c, i) \<noteq> (a, y) \<longrightarrow> value' (snd (addCashReserve cash a y s)) c i = value' s c i) \<and>
      (snd (addCashReserve cash a y s))\<lparr>cashReserve' := cashReserve' s, value' := value' s\<rparr> = s) \<and>
   (\<not> cash < value' s a y \<longrightarrow> addCashReserve cash a y s = (False, s))"
  by (auto simp add: addCashReserve_def upd2_def wrap_int_id)

theorem addCashReserve_succeeds_iff_witness:
  "fst (addCashReserve 500 0 0 (Asset\<lparr>value' := upd2 (value' Asset) 0 0 501\<rparr>)) \<and>
   cashReserve' (snd (addCashReserve 500 0 0 (Asset\<lparr>value' := upd2 (value' Asset) 0 0 501\<rparr>))) = 500 \<and>
   value' (snd (addCashReserve 500 0 0 (Asset\<lparr>value' := upd2 (value' Asset) 0 0 501\<rparr>))) 0 0 = 1 \<and>
   addCashReserve 500 0 0 (Asset\<lparr>value' := upd2 (value' Asset) 0 0 400\<rparr>)
     = (False, Asset\<lparr>value' := upd2 (value' Asset) 0 0 400\<rparr>)"
  using addCashReserve_succeeds_iff [of 500 0 0 "Asset\<lparr>value' := upd2 (value' Asset) 0 0 501\<rparr>"]
    addCashReserve_succeeds_iff [of 500 0 0 "Asset\<lparr>value' := upd2 (value' Asset) 0 0 400\<rparr>"]
  by (simp add: Asset_def upd2_def)

theorem addCashReserve_succeeds_iff_counterexample:
  "cashReserve' full_reserve = 2147483647 \<and> value' full_reserve INDIVIDUAL_INDEX 0 = 3 \<and>
   fst (addCashReserve 1 INDIVIDUAL_INDEX 0 full_reserve) \<and>
   cashReserve' (snd (addCashReserve 1 INDIVIDUAL_INDEX 0 full_reserve)) = - 2147483648 \<and>
   cashReserve' (snd (addCashReserve 1 INDIVIDUAL_INDEX 0 full_reserve))
     \<noteq> cashReserve' full_reserve + 1"
  by (simp add: full_reserve_def addCashReserve_def Asset_def upd2_def wrap_int_def)

subsection \<open>The shortfall check\<close>

text \<open>
  C1. The claim lets the reserve cover a year whose net expense is at most the
  distributable total plus the reserve. On \<open>boundary_state\<close> the net expense 501 equals the
  distributable total 1 plus the reserve 500, and the code leaves the loop in year 0
  with fundLongevity 0 instead of draining the reserve.
\<close>

theorem shortfall_boundary_breaks:
  "net_expense 0 boundary_state = 501 \<and> distributable_total 0 boundary_state = 1 \<and>
   cashReserve' boundary_state = 500 \<and>
   year_body 0 boundary_state = Break boundary_state \<and>
   calculateN boundary_state = Some (boundary_state\<lparr>fundLongevity' := 0\<rparr>)"
  by (simp add: boundary_state_def Asset_def year_eval i2f_0)

subsection \<open>Growth projection\<close>

text \<open>
  C2. In a year \<open>i\<close> with \<open>i + 1 < MAX_YEARS\<close> that the loop completes, the next value of
  every account is the product \<open>(value - distribution) * (1 + growthRate)\<close> as the code
  computes it: the difference is converted to \<^verbatim>\<open>float\<close>, the sum \<open>1 + growthRate\<close> and
  the product are rounded to \<^verbatim>\<open>float\<close>, and the product is truncated to an integer. The
  contribution of a pre-retirement year is added to that integer afterwards. (The result
  is not the exact product: an account of 16,777,217 dollars with no growth and no
  withdrawal is projected to 16,777,216.)
\<close>

theorem growth_projection:
  assumes body: "year_body i s = Continue s'" and c: "c < MAX_ACCOUNTS" and i: "i + 1 < MAX_YEARS"
  shows "\<exists>v. f2l (fmul (i2f (value' s c i - distribution' s' c i))
                   (fadd (i2f 1) (growthRate' s c i))) = Some v \<and>
             value' s' c (i + 1) =
               v + (if int i < yearsTillRetirement' s
                    then contribution_to i c (reserve_policy i s) else 0)"
proof -
  let ?s1 = "reserve_policy i (retire i s)"
  let ?ci = "contribution_individual i ?s1"
  from body obtain s2 where s2: "shortfall i ?s1 = Some s2"
    and after: "after_shortfall i (net_expense i ?s1) (distributable_total i ?s1) ?ci s2 = Continue s'"
    by (auto simp add: year_body_def Let_def split: option.splits)
  from after obtain t u x where
    t: "distribute_all i (distribution_percentage (net_expense i ?s1) (distributable_total i ?s1)) s2
          = Some t"
    and u: "contribute i ?ci t = Some u"
    and x: "inflate_expense i u = Some x" and s': "inflate_reserve i x = Some s'"
    by (auto simp add: after_shortfall_def split: option.splits)
  have un1: "unchanged s ?s1"
    by (rule unchanged_trans [OF retire_unchanged reserve_policy_unchanged])
  have un2: "unchanged s s2"
    by (rule unchanged_trans [OF un1 shortfall_unchanged [OF s2]])
  have unt: "unchanged s t"
    by (rule unchanged_trans [OF un2 distribute_all_unchanged [OF t]])
  have v2: "value' s2 = value' s"
    using shortfall_effect [OF s2] by (simp add: reserve_policy_value retire_def)
  have g2: "growthRate' s2 = growthRate' s" using un2 by (simp add: unchanged_def)
  note da = distribute_all_effect [OF t c]
  from da(3) i obtain v where
    v: "f2l (grow (value' s2 c i - distribution' t c i) (growthRate' s2 c i)) = Some v"
      "value' t c (i + 1) = v"
    by simp
  have d: "distribution' s' = distribution' t"
    using contribute_effect(1) [OF u c] inflate_effect(1) [OF x] inflate_effect(2) [OF s'] by simp
  have val: "value' s' c (i + 1) = value' u c (i + 1)"
    using inflate_effect(1) [OF x] inflate_effect(2) [OF s'] by simp
  have ytr: "yearsTillRetirement' t = yearsTillRetirement' s" using unt by (simp add: unchanged_def)
  have contrib: "int i < yearsTillRetirement' s \<Longrightarrow>
      (if c = INDIVIDUAL_INDEX then ?ci
       else if c = ROTH_INDEX then contributionRoth' t
       else if c = IRA_INDEX then contributionIra' t
       else contributionR401k' t) = contribution_to i c (reserve_policy i s)"
  proof -
    assume lt: "int i < yearsTillRetirement' s"
    then have r: "retire i s = s" by (simp add: retire_def)
    show ?thesis
      using da(1) shortfall_effect [OF s2] reserve_policy_contributions [of i s]
      by (simp add: contribution_to_def r)
  qed
  have "value' s' c (i + 1) =
      v + (if int i < yearsTillRetirement' s then contribution_to i c (reserve_policy i s) else 0)"
    using contribute_effect(2) [OF u c] contrib i val v(2) by (auto simp add: ytr)
  moreover have "f2l (fmul (i2f (value' s c i - distribution' s' c i))
                   (fadd (i2f 1) (growthRate' s c i))) = Some v"
    using v(1) by (simp add: v2 g2 d grow_def)
  ultimately show ?thesis by blast
qed

theorem growth_projection_witness:
  "\<exists>s'. year_body 0 growing_accounts = Continue s' \<and>
     distribution' s' INDIVIDUAL_INDEX 0 = 70 \<and> distribution' s' ROTH_INDEX 0 = 0 \<and>
     f2l (fmul (i2f (1000 - 70)) (fadd (i2f 1) (lit (1 / 10)))) = Some 1023 \<and>
     value' s' INDIVIDUAL_INDEX 1 = 1023 \<and>
     f2l (fmul (i2f (200 - 0)) (fadd (i2f 1) (lit (1 / 10)))) = Some 220 \<and>
     value' s' ROTH_INDEX 1 = 220 + 50"
proof -
  obtain s' where s': "year_body 0 growing_accounts = Continue s'"
    by (simp add: growing_accounts_def Asset_def year_eval feval)
  have d: "distribution' s' INDIVIDUAL_INDEX 0 = 70" "distribution' s' ROTH_INDEX 0 = 0"
    using s' by (auto simp add: growing_accounts_def Asset_def year_eval feval)
  have b: "INDIVIDUAL_INDEX < MAX_ACCOUNTS" "ROTH_INDEX < MAX_ACCOUNTS" "0 + 1 < MAX_YEARS"
    by (simp_all add: MAX_ACCOUNTS_def MAX_YEARS_def INDIVIDUAL_INDEX_def ROTH_INDEX_def)
  have r: "reserve_policy 0 growing_accounts = growing_accounts"
    by (simp add: reserve_policy_def)
  have g: "growthRate' growing_accounts INDIVIDUAL_INDEX 0 = lit (1 / 10)"
      "growthRate' growing_accounts ROTH_INDEX 0 = lit (1 / 10)"
      "value' growing_accounts INDIVIDUAL_INDEX 0 = 1000"
      "value' growing_accounts ROTH_INDEX 0 = 200"
      "yearsTillRetirement' growing_accounts = 1"
      "contribution_to 0 INDIVIDUAL_INDEX growing_accounts = 0"
      "contribution_to 0 ROTH_INDEX growing_accounts = 50"
    by (simp_all add: growing_accounts_def Asset_def contribution_to_def
        contribution_individual_def upd2_apply INDIVIDUAL_INDEX_def ROTH_INDEX_def)
  have v: "f2l (fmul (i2f (1000 - 70)) (fadd (i2f 1) (lit (1 / 10)))) = Some 1023"
      "f2l (fmul (i2f (200 - 0)) (fadd (i2f 1) (lit (1 / 10)))) = Some 220"
    by (simp_all add: feval)
  from growth_projection [OF s' b(1,3)] growth_projection [OF s' b(2,3)] show ?thesis
    using s' v by (auto simp add: d r g)
qed

theorem growth_projection_counterexample:
  "value' precise_state INDIVIDUAL_INDEX 0 = 16777217 \<and>
   growthRate' precise_state INDIVIDUAL_INDEX 0 = Fin 0 \<and>
   withdrawn 0 INDIVIDUAL_INDEX precise_state = Some 0 \<and>
   projected 0 INDIVIDUAL_INDEX precise_state = Some 16777216 \<and>
   (16777217 - 0) * (1 + 0) \<noteq> (16777216 :: int)"
  unfolding withdrawn_def projected_def
  by (simp add: precise_state_def Asset_def year_eval feval)

subsection \<open>Availability after initializeFromUserData\<close>

text \<open>
  C9. After initializeFromUserData the individual account is available in every year;
  the Roth, IRA and 401k accounts are unavailable in year 0 whatever yearsTillRetirement
  is, and in a year \<open>i \<ge> 1\<close> they are available exactly when \<open>i\<close> has
  reached yearsTillRetirement.
\<close>

theorem initializeFromUserData_availability:
  assumes "i < MAX_YEARS"
  shows "availability' (initializeFromUserData user s) INDIVIDUAL_INDEX i \<and>
     (\<forall>c. c = ROTH_INDEX \<or> c = IRA_INDEX \<or> c = R401K_INDEX \<longrightarrow>
        availability' (initializeFromUserData user s) c i
          = (1 \<le> i \<and> user_yearsTillRetirement user \<le> i))"
proof -
  let ?s2 = "init_scalars user
      (foldl (init_account user) (s\<lparr>fundLongevity' := 0, cashReserve' := 0\<rparr>) [0..<MAX_ACCOUNTS])"
  have r: "initializeFromUserData user s = foldl (init_year user) ?s2 [1..<MAX_YEARS]"
    by (simp add: initializeFromUserData_def Let_def)
  have "1 \<le> MAX_YEARS" by (simp add: MAX_YEARS_def)
  note ys = init_years_availability [OF this, of user ?s2]
  note sc = init_scalars_availability [of user
      "foldl (init_account user) (s\<lparr>fundLongevity' := 0, cashReserve' := 0\<rparr>) [0..<MAX_ACCOUNTS]"]
  show ?thesis
  proof (cases "i = 0")
    case True
    then show ?thesis
      unfolding r using ys sc
      by (auto simp add: INDIVIDUAL_INDEX_def ROTH_INDEX_def IRA_INDEX_def R401K_INDEX_def)
  next
    case False
    then have "1 \<le> i \<and> i < MAX_YEARS" using assms by simp
    then show ?thesis
      unfolding r using ys sc
      by (auto simp add: INDIVIDUAL_INDEX_def ROTH_INDEX_def IRA_INDEX_def R401K_INDEX_def)
  qed
qed

theorem initializeFromUserData_availability_witness:
  "availability' (initializeFromUserData user0 Asset) INDIVIDUAL_INDEX 0 \<and>
   \<not> availability' (initializeFromUserData user0 Asset) ROTH_INDEX 0 \<and>
   availability' (initializeFromUserData user0 Asset) ROTH_INDEX 1 \<and>
   availability' (initializeFromUserData (user0\<lparr>user_yearsTillRetirement := 5\<rparr>) Asset) IRA_INDEX 5 \<and>
   \<not> availability' (initializeFromUserData (user0\<lparr>user_yearsTillRetirement := 5\<rparr>) Asset) IRA_INDEX 4"
  using initializeFromUserData_availability [of 0 user0 Asset]
    initializeFromUserData_availability [of 1 user0 Asset]
    initializeFromUserData_availability [of 5 "user0\<lparr>user_yearsTillRetirement := 5\<rparr>" Asset]
    initializeFromUserData_availability [of 4 "user0\<lparr>user_yearsTillRetirement := 5\<rparr>" Asset]
  by (simp add: MAX_YEARS_def user0_def)

subsection \<open>What calculateN leaves unchanged\<close>

text \<open>
  C10. When calculateN returns, the account names, the availability and growth-rate
  arrays, growthRateAvg, the inflation array, yearsTillRetirement and every account's
  value of year 0 are what they were before the call.
\<close>

theorem calculateN_frame:
  assumes "calculateN s = Some s'"
  shows "name' s' = name' s \<and> availability' s' = availability' s \<and>
     growthRate' s' = growthRate' s \<and> growthRateAvg' s' = growthRateAvg' s \<and>
     inflation' s' = inflation' s \<and> yearsTillRetirement' s' = yearsTillRetirement' s \<and>
     (\<forall>c. value' s' c 0 = value' s c 0)"
proof -
  from assms obtain k s1 where l: "year_loop 0 s = Some (k, s1)" and s': "s' = s1\<lparr>fundLongevity' := int k\<rparr>"
    by (auto simp add: calculateN_def split: option.splits)
  from year_loop_unchanged [OF l] show ?thesis
    by (simp add: unchanged_def s')
qed

theorem calculateN_frame_witness:
  "\<exists>s'. calculateN small_accounts = Some s' \<and> fundLongevity' s' = 2 \<and>
     name' s' = name' small_accounts \<and> availability' s' = availability' small_accounts \<and>
     growthRate' s' = growthRate' small_accounts \<and>
     growthRateAvg' s' = growthRateAvg' small_accounts \<and>
     inflation' s' = inflation' small_accounts \<and>
     yearsTillRetirement' s' = yearsTillRetirement' small_accounts \<and>
     (\<forall>c. value' s' c 0 = value' small_accounts c 0)"
proof -
  obtain s' where s': "calculateN small_accounts = Some s'"
    by (simp add: small_accounts_def Asset_def year_eval feval)
  have "fundLongevity' s' = 2"
    using s' by (auto simp add: small_accounts_def Asset_def year_eval feval)
  with calculateN_frame [OF s'] s' show ?thesis by simp
qed

subsection \<open>Longevity without growth\<close>

text \<open>
  C3. Take an initial state with zero growth and inflation, no income, no contributions,
  the empty reserve of a new object, four accounts that are available in every year and
  hold between 0 and \<open>2 ^ 24\<close> dollars each, and an expense between 1 and \<open>2 ^ 22\<close>
  dollars. Then calculateN returns, and with \<open>initial\<close> the sum of the four initial values
  the fund longevity is at least \<open>min (initial div expense) MAX_YEARS\<close> and at most
  MAX_YEARS. It is 0 when that sum is below the expense, and otherwise, for an expense
  above 4, at most \<open>(initial - 4) div (expense - 4)\<close>: every withdrawal is truncated to a
  whole dollar, so the four accounts give up between \<open>expense - 4\<close> and \<open>expense\<close> a year.
  For four accounts of 12,500 and an expense of 1,000 both bounds are 50.
\<close>

theorem no_growth_longevity:
  assumes growth: "\<forall>c y. c < MAX_ACCOUNTS \<and> y < MAX_YEARS \<longrightarrow> growthRate' s c y = Fin 0"
    and inflation: "\<forall>y. y < MAX_YEARS \<longrightarrow> inflation' s y = Fin 0"
    and income: "takehomeIncome' s = 0"
    and contributions: "contributionRoth' s = 0" "contributionIra' s = 0" "contributionR401k' s = 0"
    and reserve: "cashReserve' s = 0"
    and available: "\<forall>c y. c < MAX_ACCOUNTS \<and> y < MAX_YEARS \<longrightarrow> availability' s c y"
    and accounts: "\<forall>c. c < MAX_ACCOUNTS \<longrightarrow> 0 \<le> value' s c 0 \<and> value' s c 0 \<le> 16777216"
    and expense: "0 < expense' s 0" "expense' s 0 \<le> 4194304"
    and initial: "initial = value' s 0 0 + value' s 1 0 + value' s 2 0 + value' s 3 0"
  shows "\<exists>s'. calculateN s = Some s' \<and>
           min (initial div expense' s 0) (int MAX_YEARS) \<le> getFundLongevity s' \<and>
           getFundLongevity s' \<le> int MAX_YEARS \<and>
           (initial < expense' s 0 \<longrightarrow> getFundLongevity s' = 0) \<and>
           (4 < expense' s 0 \<and> expense' s 0 \<le> initial \<longrightarrow>
              getFundLongevity s' \<le> (initial - 4) div (expense' s 0 - 4))"
proof -
  let ?e = "expense' s 0"
  let ?v0 = "value' s 0 0" and ?v1 = "value' s 1 0" and ?v2 = "value' s 2 0"
    and ?v3 = "value' s 3 0"
  have v: "0 \<le> ?v0" "?v0 \<le> 16777216" "0 \<le> ?v1" "?v1 \<le> 16777216"
      "0 \<le> ?v2" "?v2 \<le> 16777216" "0 \<le> ?v3" "?v3 \<le> 16777216"
    using accounts by (simp_all add: MAX_ACCOUNTS_def)
  have "ng_year 0 ?e ?v0 ?v1 ?v2 ?v3 s"
    using growth inflation income contributions reserve available expense
    by (simp add: ng_year_def ng_env_def)
  then have y: "0 < MAX_YEARS \<longrightarrow> ng_year 0 ?e ?v0 ?v1 ?v2 ?v3 s" by simp
  have "0 \<le> MAX_YEARS" by simp
  from ng_loop_lower [OF v expense this] obtain k where
    k: "ng_loop 0 ?e ?v0 ?v1 ?v2 ?v3 = Some k" "k \<le> MAX_YEARS"
      "min (int 0 + (?v0 + ?v1 + ?v2 + ?v3) div ?e) (int MAX_YEARS) \<le> int k"
    by blast
  from ng_loop_sound [OF k(1) y] obtain s' where "year_loop 0 s = Some (k, s')" by blast
  then have c: "calculateN s = Some (s'\<lparr>fundLongevity' := int k\<rparr>)"
    by (simp add: calculateN_def)
  have zero: "k = 0" if "initial < ?e"
    using that k(1) unfolding initial by (simp add: ng_loop.simps [of 0] MAX_YEARS_def)
  have upper: "int k \<le> (initial - 4) div (?e - 4)" if "4 < ?e" "?e \<le> initial"
  proof -
    have "0 \<le> (initial - 4) div (?e - 4)"
      using that by (simp add: pos_imp_zdiv_nonneg_iff)
    with ng_loop_upper [OF v that(1) expense(2) k(1)] that(2) show ?thesis
      unfolding initial by simp
  qed
  from c k(2,3) zero upper show ?thesis
    unfolding initial by (simp add: getFundLongevity_def)
qed

theorem no_growth_longevity_witness:
  "(\<exists>s'. calculateN (no_growth_accounts 12500 1000) = Some s' \<and> getFundLongevity s' = 50) \<and>
   (\<exists>s'. calculateN (no_growth_accounts 10000 3000) = Some s' \<and> getFundLongevity s' = 13) \<and>
   (\<exists>s'. calculateN (no_growth_accounts 12500 2000) = Some s' \<and> getFundLongevity s' = 25)"
proof -
  have "\<exists>s'. calculateN (no_growth_accounts 12500 1000) = Some s' \<and>
      50 \<le> getFundLongevity s' \<and> getFundLongevity s' \<le> 50"
    using no_growth_longevity [of "no_growth_accounts 12500 1000" 50000]
    by (auto simp add: no_growth_accounts_fields MAX_ACCOUNTS_def MAX_YEARS_def)
  moreover have "\<exists>s'. calculateN (no_growth_accounts 10000 3000) = Some s' \<and>
      13 \<le> getFundLongevity s' \<and> getFundLongevity s' \<le> 13"
    using no_growth_longevity [of "no_growth_accounts 10000 3000" 40000]
    by (auto simp add: no_growth_accounts_fields MAX_ACCOUNTS_def MAX_YEARS_def)
  moreover have "\<exists>s'. calculateN (no_growth_accounts 12500 2000) = Some s' \<and>
      25 \<le> getFundLongevity s' \<and> getFundLongevity s' \<le> 25"
    using no_growth_longevity [of "no_growth_accounts 12500 2000" 50000]
    by (auto simp add: no_growth_accounts_fields MAX_ACCOUNTS_def MAX_YEARS_def)
  ultimately show ?thesis by (simp add: order_class.order_eq_iff) blast
qed

theorem no_growth_longevity_counterexample:
  "growthRate' small_accounts = growthRate' Asset \<and> inflation' small_accounts = inflation' Asset \<and>
   growthRate' Asset 0 0 = Fin 0 \<and> inflation' Asset 0 = Fin 0 \<and>
   takehomeIncome' small_accounts = 0 \<and> contributionRoth' small_accounts = 0 \<and>
   contributionIra' small_accounts = 0 \<and> contributionR401k' small_accounts = 0 \<and>
   value' small_accounts 0 0 + value' small_accounts 1 0 + value' small_accounts 2 0
     + value' small_accounts 3 0 = 12 \<and>
   expense' small_accounts 0 = 7 \<and>
   map_option getFundLongevity (calculateN small_accounts) = Some 2 \<and>
   min (12 div 7) (int MAX_YEARS) = 1"
proof -
  have "map_option getFundLongevity (calculateN small_accounts) = Some 2"
    by (simp add: small_accounts_def Asset_def getFundLongevity_def year_eval feval)
  then show ?thesis
    by (simp add: small_accounts_def Asset_def MAX_YEARS_def i2f_0)
qed

subsection \<open>Proportional distribution\<close>

text \<open>
  C4. In a year that calculateN completes, in which the net expense does not exceed the
  distributable total and the total is positive (and within the range of
  \<^verbatim>\<open>long\<close>), the distribution percentage is a number between 0 and 1; every
  available account withdraws the product of its value and the percentage, computed in
  \<^verbatim>\<open>float\<close> and truncated, every unavailable account withdraws 0; and for an account
  whose value lies between 0 and \<open>2 ^ 24\<close> the distribution lies between 0 and the value.
  (Above \<open>2 ^ 24\<close> the conversion of the value to \<^verbatim>\<open>float\<close> may round up and
  the withdrawal may exceed the value.)
\<close>

theorem distribution_is_proportional:
  assumes body: "year_body i s = Continue s'"
    and covered: "net_expense i (reserve_policy i (retire i s))
                    \<le> distributable_total i (reserve_policy i (retire i s))"
    and positive: "0 < distributable_total i (reserve_policy i (retire i s))"
    and long: "distributable_total i (reserve_policy i (retire i s)) < 9223372036854775808"
  shows "\<exists>p. distribution_percentage (net_expense i (reserve_policy i (retire i s)))
                (distributable_total i (reserve_policy i (retire i s))) = Fin p \<and>
             0 \<le> p \<and> p \<le> 1 \<and>
             (\<forall>c. c < MAX_ACCOUNTS \<longrightarrow>
                (if availability' s c i
                 then f2l (fmul (i2f (value' s c i)) (Fin p)) = Some (distribution' s' c i)
                 else distribution' s' c i = 0) \<and>
                (0 \<le> value' s c i \<and> value' s c i \<le> 16777216 \<longrightarrow>
                   0 \<le> distribution' s' c i \<and> distribution' s' c i \<le> value' s c i))"
proof -
  let ?s1 = "reserve_policy i (retire i s)"
  let ?ci = "contribution_individual i ?s1"
  let ?pct = "distribution_percentage (net_expense i ?s1) (distributable_total i ?s1)"
  have s2: "shortfall i ?s1 = Some ?s1" using covered by (simp add: shortfall_def)
  with body have after: "after_shortfall i (net_expense i ?s1) (distributable_total i ?s1) ?ci ?s1
      = Continue s'"
    by (simp add: year_body_def Let_def)
  from after obtain t u x where
    t: "distribute_all i ?pct ?s1 = Some t"
    and u: "contribute i ?ci t = Some u"
    and x: "inflate_expense i u = Some x" and s': "inflate_reserve i x = Some s'"
    by (auto simp add: after_shortfall_def split: option.splits)
  have "0 \<le> net_expense i ?s1" by (simp add: net_expense_def)
  from distribution_percentage_range [OF this covered positive long] obtain p where
    p: "?pct = Fin p" "0 \<le> p" "p \<le> 1"
    by blast
  have un1: "unchanged s ?s1"
    by (rule unchanged_trans [OF retire_unchanged reserve_policy_unchanged])
  then have a1: "availability' ?s1 = availability' s" by (simp add: unchanged_def)
  have v1: "value' ?s1 = value' s" by (simp add: reserve_policy_value retire_def)
  have account: "(if availability' s c i
                 then f2l (fmul (i2f (value' s c i)) (Fin p)) = Some (distribution' s' c i)
                 else distribution' s' c i = 0) \<and>
                (0 \<le> value' s c i \<and> value' s c i \<le> 16777216 \<longrightarrow>
                   0 \<le> distribution' s' c i \<and> distribution' s' c i \<le> value' s c i)"
    if c: "c < MAX_ACCOUNTS" for c
  proof -
    have d: "distribution' s' = distribution' t"
      using contribute_effect(1) [OF u c] inflate_effect(1) [OF x] inflate_effect(2) [OF s'] by simp
    have w: "if availability' s c i
         then f2l (fmul (i2f (value' s c i)) (Fin p)) = Some (distribution' s' c i)
         else distribution' s' c i = 0"
      using distribute_all_distribution [OF t c] unfolding p(1) a1 v1 d .
    have "0 \<le> distribution' s' c i \<and> distribution' s' c i \<le> value' s c i"
      if v: "0 \<le> value' s c i" "value' s c i \<le> 16777216"
    proof (cases "availability' s c i")
      case True
      from withdrawal_bounds [OF v p(2,3)] w True show ?thesis by auto
    next
      case False
      with w v show ?thesis by simp
    qed
    with w show ?thesis by blast
  qed
  with p show ?thesis by blast
qed

theorem distribution_is_proportional_witness:
  "\<exists>s' p. year_body 0 small_accounts = Continue s' \<and>
     distribution_percentage 7 12 = Fin p \<and> 0 \<le> p \<and> p \<le> 1 \<and>
     f2l (fmul (i2f 3) (Fin p)) = Some (distribution' s' 2 0) \<and>
     0 \<le> distribution' s' 2 0 \<and> distribution' s' 2 0 \<le> 3"
proof -
  obtain s' where s': "year_body 0 small_accounts = Continue s'"
    by (simp add: small_accounts_def Asset_def year_eval feval)
  have s1: "reserve_policy 0 (retire 0 small_accounts) = small_accounts"
    by (simp add: small_accounts_def Asset_def reserve_policy_def retire_def)
  have n: "net_expense 0 small_accounts = 7" "distributable_total 0 small_accounts = 12"
    unfolding distributable_total_def accounts_upt
    by (simp_all add: small_accounts_def Asset_def net_expense_def)
  have c: "2 < MAX_ACCOUNTS" by (simp add: MAX_ACCOUNTS_def)
  from distribution_is_proportional [OF s', unfolded s1 n] obtain p where
    "distribution_percentage 7 12 = Fin p" "0 \<le> p" "p \<le> 1"
    "\<forall>c. c < MAX_ACCOUNTS \<longrightarrow>
                (if availability' small_accounts c 0
                 then f2l (fmul (i2f (value' small_accounts c 0)) (Fin p)) = Some (distribution' s' c 0)
                 else distribution' s' c 0 = 0) \<and>
                (0 \<le> value' small_accounts c 0 \<and> value' small_accounts c 0 \<le> 16777216 \<longrightarrow>
                   0 \<le> distribution' s' c 0 \<and> distribution' s' c 0 \<le> value' small_accounts c 0)"
    by auto
  with s' c show ?thesis
    by (auto simp add: small_accounts_def Asset_def)
qed

theorem distribution_is_proportional_counterexample:
  "distribution_percentage (net_expense 0 rounding_state) (distributable_total 0 rounding_state)
     = Fin 1 \<and>
   availability' rounding_state INDIVIDUAL_INDEX 0 \<and>
   value' rounding_state INDIVIDUAL_INDEX 0 = 16777219 \<and>
   withdrawn 0 INDIVIDUAL_INDEX rounding_state = Some 16777220"
  unfolding withdrawn_def
  by (simp add: rounding_state_def Asset_def year_eval feval)

subsection \<open>An unrecognized model option\<close>

text \<open>
  C6. When populateGrowthCurves is called with an option that is none of the three models,
  and the average growth rates of the accounts are finite and not negative, the only report
  is the line written to the error stream; every growth rate of the 4 accounts and 50 years
  is set to zero and nothing else of the object changes. No failure is returned: the
  function returns normally, with the object that zero averages give under the constant
  model.
\<close>

theorem unrecognized_option:
  assumes opt: "option \<noteq> CONSTANT" "option \<noteq> PREDEFINED_YEAR0_LOSS"
      "option \<noteq> RECESSION_RANDOMIZED"
    and avg: "\<forall>c. c < MAX_ACCOUNTS \<longrightarrow> (\<exists>a. growthRateAvg' s c = Fin a \<and> 0 \<le> a)"
  shows "snd (populateGrowthCurves draws option s)
           = [''ERROR: Fund growth moodel option not recognized!''] \<and>
         (\<forall>c n. c < MAX_ACCOUNTS \<and> n < MAX_YEARS \<longrightarrow>
            growthRate' (fst (populateGrowthCurves draws option s)) c n = Fin 0) \<and>
         (fst (populateGrowthCurves draws option s))\<lparr>growthRate' := growthRate' s\<rparr> = s"
proof -
  have "growthRate' (fst (populateGrowthCurves draws option s)) c n = Fin 0"
    if "c < MAX_ACCOUNTS" "n < MAX_YEARS" for c n
  proof -
    from avg that(1) obtain a where a: "growthRateAvg' s c = Fin a" "0 \<le> a" by blast
    from guessed_stock_ratio_range [OF a(2)] obtain r where
      r: "guessed_stock_ratio (Fin a) = Fin r"
      by blast
    show ?thesis
      using that
      by (simp add: populateGrowthCurves_scaled(1) [OF opt(1)] common_curve_unrecognized [OF opt(2,3)]
          a(1) r round32_def rnd_zero overflow32_def)
  qed
  moreover have "snd (populateGrowthCurves draws option s)
      = [''ERROR: Fund growth moodel option not recognized!'']"
    using opt by (simp add: populateGrowthCurves_def Let_def)
  ultimately show ?thesis using populateGrowthCurves_scaled(2) [OF opt(1)] by blast
qed

theorem unrecognized_option_witness:
  "snd (populateGrowthCurves fixed_draws 7 Asset)
     = [''ERROR: Fund growth moodel option not recognized!''] \<and>
   growthRate' (fst (populateGrowthCurves fixed_draws 7 Asset)) 3 49 = Fin 0 \<and>
   (fst (populateGrowthCurves fixed_draws 7 Asset))\<lparr>growthRate' := growthRate' Asset\<rparr> = Asset"
proof -
  have "\<forall>c. c < MAX_ACCOUNTS \<longrightarrow> (\<exists>a. growthRateAvg' Asset c = Fin a \<and> 0 \<le> a)"
    by (simp add: Asset_def i2f_0)
  from unrecognized_option [where option = 7 and s = Asset and draws = fixed_draws, OF _ _ _ this]
  show ?thesis
    by (simp add: CONSTANT_def PREDEFINED_YEAR0_LOSS_def RECESSION_RANDOMIZED_def
        MAX_ACCOUNTS_def MAX_YEARS_def)
qed

theorem unrecognized_option_counterexample:
  "populateGrowthCurves fixed_draws 7 Asset
     = (Asset, [''ERROR: Fund growth moodel option not recognized!'']) \<and>
   fst (populateGrowthCurves fixed_draws CONSTANT Asset) = Asset"
proof -
  have z: "guessed_stock_ratio (Fin 0) = Fin 0"
    by (simp add: guessed_stock_ratio_def STOCK_GROWTH_AVG_value feval)
  have opt: "(7::int) \<noteq> CONSTANT" "(7::int) \<noteq> PREDEFINED_YEAR0_LOSS"
      "(7::int) \<noteq> RECESSION_RANDOMIZED"
    by (simp_all add: CONSTANT_def PREDEFINED_YEAR0_LOSS_def RECESSION_RANDOMIZED_def)
  have "growthRate' (fst (populateGrowthCurves fixed_draws 7 Asset)) = growthRate' Asset"
    by (auto simp add: fun_eq_iff populateGrowthCurves_scaled(1) [OF opt(1)]
        common_curve_unrecognized [OF opt(2,3)] Asset_def i2f_0 z round32_def rnd_zero
        overflow32_def)
  with populateGrowthCurves_scaled(2) [OF opt(1), where draws = fixed_draws and s = Asset]
  have 1: "fst (populateGrowthCurves fixed_draws 7 Asset) = Asset"
    by (rule asset_growthRate_eqI)
  have 2: "snd (populateGrowthCurves fixed_draws 7 Asset)
      = [''ERROR: Fund growth moodel option not recognized!'']"
    using opt by (simp add: populateGrowthCurves_def Let_def)
  have "growthRate' (fst (populateGrowthCurves fixed_draws CONSTANT Asset)) = growthRate' Asset"
    by (auto simp add: fun_eq_iff populateGrowthCurves_constant(1) Asset_def)
  with populateGrowthCurves_constant(2) [where draws = fixed_draws and s = Asset]
  have 3: "fst (populateGrowthCurves fixed_draws CONSTANT Asset) = Asset"
    by (rule asset_growthRate_eqI)
  from 1 2 3 show ?thesis by (simp add: prod_eq_iff)
qed

subsection \<open>Scaling of the common curve\<close>

text \<open>
  C7. After populateGrowthCurves with an option other than the constant model, for an
  account whose average growth rate is finite and not negative, the growth rate of every
  year is the \<^verbatim>\<open>float\<close> product of the common curve and the ratio
  \<open>min (growthRateAvg / STOCK_GROWTH_AVG) 1\<close>, the ratio lies between 0 and 1, and the
  magnitude of the growth rate does not exceed the magnitude of the common curve in that
  year. (For a negative average the ratio is not bounded below and the magnitude can grow.)
\<close>

theorem scaled_growth_rate:
  assumes opt: "option \<noteq> CONSTANT" and c: "c < MAX_ACCOUNTS" and n: "n < MAX_YEARS"
    and avg: "growthRateAvg' s c = Fin a" "0 \<le> a"
  shows "growthRate' (fst (populateGrowthCurves draws option s)) c n
           = fmul (common_curve draws option n) (guessed_stock_ratio (growthRateAvg' s c)) \<and>
         (\<exists>r. guessed_stock_ratio (growthRateAvg' s c) = Fin r \<and> 0 \<le> r \<and> r \<le> 1) \<and>
         (\<forall>g. common_curve draws option n = Fin g \<longrightarrow>
            (\<exists>x. growthRate' (fst (populateGrowthCurves draws option s)) c n = Fin x \<and>
                 \<bar>x\<bar> \<le> \<bar>g\<bar>))"
proof -
  have eq: "growthRate' (fst (populateGrowthCurves draws option s)) c n
      = fmul (common_curve draws option n) (guessed_stock_ratio (growthRateAvg' s c))"
    using c n by (simp add: populateGrowthCurves_scaled(1) [OF opt])
  from guessed_stock_ratio_range [OF avg(2)] obtain r where
    r: "guessed_stock_ratio (growthRateAvg' s c) = Fin r" "0 \<le> r" "r \<le> 1"
    unfolding avg(1) by blast
  have "\<exists>x. growthRate' (fst (populateGrowthCurves draws option s)) c n = Fin x \<and> \<bar>x\<bar> \<le> \<bar>g\<bar>"
    if g: "common_curve draws option n = Fin g" for g
  proof -
    have "representable (Fin g)" using common_curve_representable [of draws option n] g by simp
    moreover have "\<bar>r\<bar> \<le> 1" using r(2,3) by simp
    ultimately show ?thesis unfolding eq g r(1) by (rule fmul_shrinks)
  qed
  with eq r show ?thesis by blast
qed

theorem scaled_growth_rate_witness:
  "growthRate' (fst (populateGrowthCurves fixed_draws PREDEFINED_YEAR0_LOSS cautious_investor)) 0 0
     = Fin (- (3162431 / 16777216)) \<and>
   common_curve fixed_draws PREDEFINED_YEAR0_LOSS 0 = Fin (- (3573547 / 8388608)) \<and>
   guessed_stock_ratio (growthRateAvg' cautious_investor 0) = Fin (7423547 / 16777216)"
proof -
  have a: "growthRateAvg' cautious_investor 0 = Fin (13421773 / 268435456)"
    by (simp add: cautious_investor_def feval)
  have g: "common_curve fixed_draws PREDEFINED_YEAR0_LOSS 0 = Fin (- (3573547 / 8388608))"
    by (simp add: common_curve_def scenarioPredefinedYear0Loss_apply MAX_YEARS_def
        RECESSION_YEAR0_LOSS_def RECESSION_YEAR0_LOSS_literals_def feval)
  have r: "guessed_stock_ratio (Fin (13421773 / 268435456)) = Fin (7423547 / 16777216)"
    by (simp add: guessed_stock_ratio_def STOCK_GROWTH_AVG_value feval)
  have "PREDEFINED_YEAR0_LOSS \<noteq> CONSTANT" "0 < MAX_ACCOUNTS" "0 < MAX_YEARS"
    "(0::rat) \<le> 13421773 / 268435456"
    by (simp_all add: PREDEFINED_YEAR0_LOSS_def CONSTANT_def MAX_ACCOUNTS_def MAX_YEARS_def)
  from scaled_growth_rate [OF this(1,2,3) a this(4), where draws = fixed_draws] show ?thesis
    by (simp add: a g r feval)
qed

theorem scaled_growth_rate_counterexample:
  "growthRate' (fst (populateGrowthCurves fixed_draws PREDEFINED_YEAR0_LOSS negative_average)) 0 0
     = Fin (9487293 / 8388608) \<and>
   common_curve fixed_draws PREDEFINED_YEAR0_LOSS 0 = Fin (- (3573547 / 8388608)) \<and>
   \<bar>- (3573547 / 8388608) :: rat\<bar> < \<bar>9487293 / 8388608\<bar>"
proof -
  have a: "growthRateAvg' negative_average 0 = Fin (- (5033165 / 16777216))"
    by (simp add: negative_average_def feval)
  have g: "common_curve fixed_draws PREDEFINED_YEAR0_LOSS 0 = Fin (- (3573547 / 8388608))"
    by (simp add: common_curve_def scenarioPredefinedYear0Loss_apply MAX_YEARS_def
        RECESSION_YEAR0_LOSS_def RECESSION_YEAR0_LOSS_literals_def feval)
  have r: "guessed_stock_ratio (Fin (- (5033165 / 16777216))) = Fin (- (11135321 / 4194304))"
    by (simp add: guessed_stock_ratio_def STOCK_GROWTH_AVG_value feval)
  have "PREDEFINED_YEAR0_LOSS \<noteq> CONSTANT"
    by (simp add: PREDEFINED_YEAR0_LOSS_def CONSTANT_def)
  from populateGrowthCurves_scaled(1) [OF this, where draws = fixed_draws and s = negative_average
      and c = 0 and n = 0]
  show ?thesis by (simp add: MAX_ACCOUNTS_def MAX_YEARS_def a g r feval)
qed

subsection \<open>The first recession of the randomized model\<close>

text \<open>
  C8. For every sequence of draws between RANDOM_NUM_MIN and RANDOM_NUM_MAX, the first
  recession year of the randomized model, the first draw modulo RECESSION_START_MOD = 1,
  is year 0, and entry 0 of the common curve is the recession rate computed from the
  second draw, a number between RECESSION_MIN and RECESSION_MAX, both negative.
\<close>

theorem first_recession_at_year0:
  assumes "\<forall>k. RANDOM_NUM_MIN \<le> draws k \<and> draws k \<le> RANDOM_NUM_MAX"
  shows "draws 0 mod RECESSION_START_MOD = 0 \<and>
     scenarioRecessionRandomized draws growth_common 0 = recession_rate (draws 1) \<and>
     (\<exists>x lo hi. recession_rate (draws 1) = Fin x \<and> RECESSION_MIN = Fin lo \<and>
        RECESSION_MAX = Fin hi \<and> lo \<le> x \<and> x \<le> hi \<and> hi < 0)"
proof -
  have d: "1 \<le> draws 1" "draws 1 \<le> 100"
    using assms by (simp_all add: RANDOM_NUM_MIN_def RANDOM_NUM_MAX_def)
  from recession_rate_bounds [OF d] obtain x where
    "recession_rate (draws 1) = Fin x" "- (7549747 / 16777216) \<le> x" "x \<le> - (5033165 / 33554432)"
    by blast
  then have "\<exists>x lo hi. recession_rate (draws 1) = Fin x \<and> RECESSION_MIN = Fin lo \<and>
        RECESSION_MAX = Fin hi \<and> lo \<le> x \<and> x \<le> hi \<and> hi < 0"
    by (simp add: recession_constants(1,2))
  then show ?thesis
    using scenarioRecessionRandomized_year0 [of draws, OF d] by (simp add: RECESSION_START_MOD_def)
qed

theorem first_recession_at_year0_witness:
  "fixed_draws 0 mod RECESSION_START_MOD = 0 \<and>
   scenarioRecessionRandomized fixed_draws (\<lambda>n. Fin 0) 0 = Fin (- (5033165 / 16777216)) \<and>
   RECESSION_MIN = Fin (- (7549747 / 16777216)) \<and> RECESSION_MAX = Fin (- (5033165 / 33554432))"
proof -
  have "\<forall>k. RANDOM_NUM_MIN \<le> fixed_draws k \<and> fixed_draws k \<le> RANDOM_NUM_MAX"
    by (simp add: fixed_draws_def RANDOM_NUM_MIN_def RANDOM_NUM_MAX_def)
  from first_recession_at_year0 [OF this, of "\<lambda>n. Fin 0"]
  have "fixed_draws 0 mod RECESSION_START_MOD = 0"
    "scenarioRecessionRandomized fixed_draws (\<lambda>n. Fin 0) 0 = recession_rate (fixed_draws 1)"
    by simp_all
  moreover have "recession_rate 50 = Fin (- (5033165 / 16777216))"
    by (simp only: recession_rate_def recession_constants(3))
      (simp add: recession_constants(1) RANDOM_NUM_MAX_def feval)
  ultimately show ?thesis by (simp add: fixed_draws_def recession_constants(1,2))
qed

end
